theory Spec2Isabelle
  imports Main "HOL-Library.AList"
begin

section \<open>Python strings\<close>

text \<open>
  Strings are lists of characters. \<open>str.strip()\<close> without argument removes the
  leading and the trailing run of whitespace characters; on the code points
  0..255 that a \<open>char\<close> holds, the characters Python counts as whitespace are
  TAB, LF, VT, FF, CR, the separators 28..31, SPACE, NEL (133) and NBSP (160).
\<close>

definition is_space :: "char \<Rightarrow> bool" where
  "is_space c = ((of_char c :: nat) \<in> {9, 10, 11, 12, 13, 28, 29, 30, 31, 32, 133, 160})"

definition strip :: "string \<Rightarrow> string" where
  "strip s = rev (dropWhile is_space (rev (dropWhile is_space s)))"

section \<open>llm/client.py\<close>

text \<open>
  An exception object is modelled by its description \<open>str(e)\<close>. Only instances of
  Python's \<open>Exception\<close> class are modelled: these are what the \<open>except Exception\<close>
  clause of \<open>call_llm\<close> handles.
\<close>

datatype exn = Exception (str: string)

text \<open>
  The \<open>text\<close> attribute of the provider's response object: the attribute may be
  missing (\<open>hasattr\<close> is false), reading it may raise, or it holds a value, which
  is \<open>None\<close> or a string.
\<close>

datatype text_attr = Missing | Raising exn | Value "string option"

record response =
  response_text :: text_attr

text \<open>
  The hosted API (the package \<open>google.generativeai\<close>) is a parameter of the model:
  its constructor \<open>GenerativeModel(model_name[, system_instruction])\<close> and the
  method \<open>generate_content(prompt)\<close> of the model object, each of which either
  raises or returns.
\<close>

record 'm genai =
  GenerativeModel :: "string \<Rightarrow> string option \<Rightarrow> exn + 'm"
  generate_content :: "'m \<Rightarrow> string \<Rightarrow> exn + response"

definition no_text_response :: string where
  "no_text_response = ''[LLM returned no text response]''"

text \<open>The body of the \<open>try\<close> block; \<open>Inl e\<close> is the exception \<open>e\<close> raised inside it.\<close>

definition call_llm_try :: "'m genai \<Rightarrow> string \<Rightarrow> string option \<Rightarrow> string \<Rightarrow> exn + string" where
  "call_llm_try api prompt system_instruction model_name =
     (case (if system_instruction \<noteq> None \<and> system_instruction \<noteq> Some []
            then GenerativeModel api model_name system_instruction
            else GenerativeModel api model_name None) of
        Inl e \<Rightarrow> Inl e
      | Inr model \<Rightarrow>
          (case generate_content api model prompt of
             Inl e \<Rightarrow> Inl e
           | Inr response \<Rightarrow>
               (case response_text response of
                  Missing \<Rightarrow> Inr no_text_response
                | Raising e \<Rightarrow> Inl e
                | Value None \<Rightarrow> Inr no_text_response
                | Value (Some t) \<Rightarrow>
                    if t \<noteq> [] then Inr (strip t) else Inr no_text_response)))"

text \<open>\<open>call_llm\<close>: the \<open>try\<close> block with its handler \<open>except Exception as e\<close>.\<close>

definition call_llm :: "'m genai \<Rightarrow> string \<Rightarrow> string option \<Rightarrow> string \<Rightarrow> string" where
  "call_llm api prompt system_instruction model_name =
     (case call_llm_try api prompt system_instruction model_name of
        Inl e \<Rightarrow> ''[LLM ERROR] '' @ str e
      | Inr s \<Rightarrow> s)"

text \<open>
  What the provider does on one call, as the caller of \<open>call_llm\<close> sees it: it raises
  somewhere, or it answers with usable (non-empty) text, or it answers without.
\<close>

datatype outcome = Throws exn | Usable string | Unusable

definition provider_outcome :: "'m genai \<Rightarrow> string \<Rightarrow> string option \<Rightarrow> string \<Rightarrow> outcome \<Rightarrow> bool" where
  "provider_outcome api prompt system_instruction model_name out =
     (let si = (if system_instruction = Some [] then None else system_instruction) in
      case out of
        Throws e \<Rightarrow>
          GenerativeModel api model_name si = Inl e \<or>
          (\<exists>m. GenerativeModel api model_name si = Inr m \<and>
             (generate_content api m prompt = Inl e \<or>
              (\<exists>r. generate_content api m prompt = Inr r \<and> response_text r = Raising e)))
      | Usable t \<Rightarrow>
          t \<noteq> [] \<and>
          (\<exists>m r. GenerativeModel api model_name si = Inr m \<and>
             generate_content api m prompt = Inr r \<and> response_text r = Value (Some t))
      | Unusable \<Rightarrow>
          (\<exists>m r. GenerativeModel api model_name si = Inr m \<and>
             generate_content api m prompt = Inr r \<and>
             (response_text r = Missing \<or> response_text r = Value None \<or> response_text r = Value (Some []))))"

text \<open>How the text that \<open>call_llm\<close> returns is related to an untrimmed text.\<close>

definition trimmed :: "string \<Rightarrow> string \<Rightarrow> bool" where
  "trimmed t s \<longleftrightarrow>
     (\<exists>a b. t = a @ s @ b \<and> list_all is_space a \<and> list_all is_space b) \<and>
     (s \<noteq> [] \<longrightarrow> \<not> is_space (hd s) \<and> \<not> is_space (last s))"

definition llm_test_api :: "nat genai" where
  "llm_test_api =
     \<lparr> GenerativeModel = (\<lambda>name si. if name = ''down'' then Inl (Exception ''quota'') else Inr 0),
       generate_content = (\<lambda>m p. Inr \<lparr> response_text = Value (Some p) \<rparr>) \<rparr>"

section \<open>rag/retriever.py\<close>

text \<open>
  One retrieved document, the dictionary with the keys \<open>text\<close>, \<open>metadata\<close> and \<open>score\<close>.
  The score is the distance that the index reports, or \<open>None\<close>.
\<close>

record ('m, 's) hit =
  hit_text :: string
  hit_metadata :: 'm
  hit_score :: "'s option"

text \<open>
  The dictionary that \<open>collection.query\<close> returns. A key holds one list for each query
  embedding; \<open>None\<close> stands for a key that is absent from the dictionary.
\<close>

record ('m, 's) query_result =
  documents :: "string list list option"
  metadatas :: "'m list list option"
  distances :: "'s list list option"

datatype rag_error = IndexError | External string

text \<open>
  The embedding model and the vector index are external: they are parameters of
  the model, and a call of either returns a value or raises.
\<close>

record ('e, 'm, 's) rag_retriever =
  encode :: "string \<Rightarrow> rag_error + 'e"
  collection_query :: "'e list \<Rightarrow> int \<Rightarrow> rag_error + ('m, 's) query_result"

text \<open>The calls made to the two external systems, in order.\<close>

datatype 'e call = Embed string | Query "'e list" int

text \<open>\<open>xs[0]\<close>, which raises \<open>IndexError\<close> on the empty list.\<close>

definition first_item :: "'a list \<Rightarrow> rag_error + 'a" where
  "first_item xs = (case xs of [] \<Rightarrow> Inl IndexError | x # _ \<Rightarrow> Inr x)"

text \<open>\<open>_embed_query\<close>: one call of the embedding model, recorded in the log.\<close>

definition embed_query ::
  "('e, 'm, 's) rag_retriever \<Rightarrow> 'e call list \<Rightarrow> string \<Rightarrow> (rag_error + 'e) \<times> 'e call list" where
  "embed_query self log query = (encode self query, log @ [Embed query])"

text \<open>The loop over \<open>zip(docs, metas, dists)\<close> that builds the list \<open>formatted\<close>.\<close>

fun format_hits :: "string list \<Rightarrow> 'm list \<Rightarrow> 's option list \<Rightarrow> ('m, 's) hit list" where
  "format_hits (t # docs) (meta # metas) (dist # dists) =
     \<lparr> hit_text = t, hit_metadata = meta, hit_score = dist \<rparr> # format_hits docs metas dists"
| "format_hits _ _ _ = []"

text \<open>
  \<open>retrieve\<close>, with the log of external calls passed through. \<open>Inl e\<close> is the exception
  \<open>e\<close> raised by the method.
\<close>

definition retrieve ::
  "('e, 'm, 's) rag_retriever \<Rightarrow> 'e call list \<Rightarrow> string \<Rightarrow> int \<Rightarrow>
   (rag_error + ('m, 's) hit list) \<times> 'e call list" where
  "retrieve self log query k =
     (if query = [] \<or> strip query = [] then (Inr [], log)
      else
        (case embed_query self log query of
           (Inl e, log1) \<Rightarrow> (Inl e, log1)
         | (Inr query_emb, log1) \<Rightarrow>
             (let log2 = log1 @ [Query [query_emb] k] in
              case collection_query self [query_emb] k of
                Inl e \<Rightarrow> (Inl e, log2)
              | Inr results \<Rightarrow>
                  (case first_item (case documents results of None \<Rightarrow> [[]] | Some v \<Rightarrow> v) of
                     Inl e \<Rightarrow> (Inl e, log2)
                   | Inr docs \<Rightarrow>
                       (case first_item (case metadatas results of None \<Rightarrow> [[]] | Some v \<Rightarrow> v) of
                          Inl e \<Rightarrow> (Inl e, log2)
                        | Inr metas \<Rightarrow>
                            (case (case distances results of
                                     None \<Rightarrow> Inr (replicate (length docs) None)
                                   | Some v \<Rightarrow>
                                       (case first_item v of
                                          Inl e \<Rightarrow> Inl e
                                        | Inr ds \<Rightarrow> Inr (map Some ds))) of
                               Inl e \<Rightarrow> (Inl e, log2)
                             | Inr dists \<Rightarrow> (Inr (format_hits docs metas dists), log2)))))))"

text \<open>
  Modelled from the spec: the vector index (ChromaDB) is not part of the sources.
  The specification describes its answer to a nearest-neighbour query for the top
  \<open>k\<close>: the closest stored vectors, at most \<open>k\<close> of them (as many as exist), closest
  first, each with its text, its metadata and its distance.
\<close>

definition index_answers ::
  "('e, 'm, 's::linorder) rag_retriever \<Rightarrow> 'e \<Rightarrow> int \<Rightarrow> string list \<Rightarrow> 'm list \<Rightarrow> 's list \<Rightarrow> bool" where
  "index_answers self emb k ds ms xs =
     (collection_query self [emb] k =
        Inr \<lparr> documents = Some [ds], metadatas = Some [ms], distances = Some [xs] \<rparr> \<and>
      length ds = length xs \<and> length ms = length xs \<and> int (length xs) \<le> k \<and> sorted xs)"

text \<open>An index with three documents, and an embedding model that maps a text to its length.\<close>

definition test_retriever :: "(nat, string, int) rag_retriever" where
  "test_retriever =
     \<lparr> encode = (\<lambda>q. Inr (length q)),
       collection_query = (\<lambda>embs k.
         Inr \<lparr> documents = Some [take (nat k) [''d1'', ''d2'', ''d3'']],
               metadatas = Some [take (nat k) [''m1'', ''m2'', ''m3'']],
               distances = Some [take (nat k) [1, 4, 9]] \<rparr>) \<rparr>"

section \<open>kg/kg_utils.py\<close>

subsection \<open>Exceptions and dictionaries\<close>

text \<open>
  The exceptions that the queries of \<open>TrafficKnowledgeGraph\<close> can meet: Python's
  \<open>KeyError\<close> (with the missing key) and the three exceptions of the graph library.
\<close>

datatype error = KeyError string | NodeNotFound | NetworkXNoPath | NetworkXError

text \<open>
  A JSON object of the graph description, and the attribute dictionary of a node:
  a dictionary from keys to string values. \<open>d.get(k)\<close> is \<open>d k\<close>.
\<close>

type_synonym json_object = "string \<rightharpoonup> string"

text \<open>\<open>d[k]\<close>, which raises \<open>KeyError\<close> for a missing key.\<close>

definition getitem :: "(string \<rightharpoonup> 'v) \<Rightarrow> string \<Rightarrow> error + 'v" where
  "getitem d k = (case d k of None \<Rightarrow> Inl (KeyError k) | Some v \<Rightarrow> Inr v)"

text \<open>\<open>d.get(k, dflt)\<close>, with a default value for a missing key.\<close>

definition dict_get :: "(string \<rightharpoonup> 'v) \<Rightarrow> string \<Rightarrow> 'v \<Rightarrow> 'v" where
  "dict_get d k dflt = (case d k of None \<Rightarrow> dflt | Some v \<Rightarrow> v)"

text \<open>The comprehension \<open>[d[n] for n in ks]\<close>: it stops at the first missing key.\<close>

fun getitems :: "(string \<rightharpoonup> 'v) \<Rightarrow> string list \<Rightarrow> error + 'v list" where
  "getitems d [] = Inr []"
| "getitems d (k # ks) =
     (case getitem d k of
        Inl e \<Rightarrow> Inl e
      | Inr v \<Rightarrow> (case getitems d ks of Inl e \<Rightarrow> Inl e | Inr vs \<Rightarrow> Inr (v # vs)))"

subsection \<open>The graph object of the library\<close>

text \<open>
  The graph library networkx is not part of the sources; its class \<open>nx.Graph\<close> is
  modelled here as far as \<open>kg_utils.py\<close> uses it, after the library's own code.
  \<open>nx.Graph\<close> keeps two dictionaries, both in insertion order: \<open>_node\<close> from a node
  to its attribute dictionary, and \<open>_adj\<close> from a node to the dictionary of its
  neighbours (each with the attributes of the edge, here the relation tag alone).
  Both are association lists; \<open>AList.update\<close> is the assignment \<open>d[k] = v\<close>, which
  keeps the position of a key that is already there and appends a new one.
\<close>

record graph =
  nx_node :: "(string \<times> json_object) list"
  nx_adj :: "(string \<times> (string \<times> string) list) list"

definition empty_graph :: graph where
  "empty_graph = \<lparr> nx_node = [], nx_adj = [] \<rparr>"

definition has_node :: "graph \<Rightarrow> string \<Rightarrow> bool" where
  "has_node g n = (map_of (nx_node g) n \<noteq> None)"

text \<open>
  \<open>G.add_node(n, **attr)\<close>: a new node gets an empty neighbour dictionary and the
  attributes; the attributes of a node that exists are updated.
\<close>

definition add_node :: "string \<Rightarrow> json_object \<Rightarrow> graph \<Rightarrow> graph" where
  "add_node n attr g =
     (case map_of (nx_node g) n of
        None \<Rightarrow> g\<lparr> nx_adj := AList.update n [] (nx_adj g),
                   nx_node := AList.update n attr (nx_node g) \<rparr>
      | Some old \<Rightarrow> g\<lparr> nx_node := AList.update n (old ++ attr) (nx_node g) \<rparr>)"

text \<open>
  \<open>G.add_edge(u, v, relation=rel)\<close>: an endpoint that is not a node yet is created
  without attributes; then each endpoint is entered among the neighbours of the
  other.
\<close>

definition implicit_node :: "string \<Rightarrow> graph \<Rightarrow> graph" where
  "implicit_node u g =
     (if has_node g u then g
      else g\<lparr> nx_adj := AList.update u [] (nx_adj g),
               nx_node := AList.update u Map.empty (nx_node g) \<rparr>)"

definition add_edge :: "string \<Rightarrow> string \<Rightarrow> string \<Rightarrow> graph \<Rightarrow> graph" where
  "add_edge u v rel g =
     (let g2 = implicit_node v (implicit_node u g) in
      g2\<lparr> nx_adj := AList.map_entry v (AList.update u rel)
                      (AList.map_entry u (AList.update v rel) (nx_adj g2)) \<rparr>)"

text \<open>\<open>G.neighbors(n)\<close>, which raises \<open>NetworkXError\<close> for a node not in the graph.\<close>

definition neighbors :: "graph \<Rightarrow> string \<Rightarrow> error + string list" where
  "neighbors g n =
     (case map_of (nx_adj g) n of None \<Rightarrow> Inl NetworkXError | Some nbrs \<Rightarrow> Inr (map fst nbrs))"

definition adj_of :: "graph \<Rightarrow> string \<Rightarrow> string list" where
  "adj_of g v = (case map_of (nx_adj g) v of None \<Rightarrow> [] | Some nbrs \<Rightarrow> map fst nbrs)"

definition nbr_ids :: "graph \<Rightarrow> string set" where
  "nbr_ids g = (\<Union>e \<in> set (nx_adj g). fst ` set (snd e))"

subsection \<open>The shortest-path search of the library\<close>

text \<open>
  Modelled from the spec: \<open>nx.shortest_path(G, source, target)\<close> belongs to the graph
  library networkx, which is not part of the sources. The specification describes
  it as an unweighted breadth-first shortest-path search over the undirected
  graph, which returns one shortest path from source to target, both endpoints
  included, ties broken by the search; the library raises \<open>NodeNotFound\<close> when an
  endpoint is not a node of the graph and \<open>NetworkXNoPath\<close> when the target cannot
  be reached.

  The search proceeds level by level. The frontier holds one path (in reverse,
  newest node first) for each node first reached at the current level; \<open>seen\<close>
  holds the nodes reached so far.
\<close>

fun next_level :: "graph \<Rightarrow> string list \<Rightarrow> string list list \<Rightarrow> string list list" where
  "next_level g seen [] = []"
| "next_level g seen ([] # ps) = next_level g seen ps"
| "next_level g seen ((v # q) # ps) =
     (let new = filter (\<lambda>w. w \<notin> set seen) (adj_of g v)
      in map (\<lambda>w. w # v # q) new @ next_level g (seen @ new) ps)"

text \<open>
  Modelled from the spec: the breadth-first search itself. It returns the first
  frontier path that ends in the target, and raises \<open>NetworkXNoPath\<close> when a level
  reaches no new node.
\<close>

function bfs :: "graph \<Rightarrow> string \<Rightarrow> string list \<Rightarrow> string list list \<Rightarrow> error + string list" where
  "bfs g t seen frontier =
     (case find (\<lambda>p. p \<noteq> [] \<and> hd p = t) frontier of
        Some p \<Rightarrow> Inr (rev p)
      | None \<Rightarrow>
          (if next_level g seen frontier = [] then Inl NetworkXNoPath
           else bfs g t (seen @ map hd (next_level g seen frontier)) (next_level g seen frontier)))"
  by pat_completeness auto
termination
proof (relation "measure (\<lambda>(g, t, seen, frontier). card (nbr_ids g - set seen))")
  show "wf (measure (\<lambda>(g, t, seen, frontier). card (nbr_ids g - set seen)))"
    by simp
next
  fix g :: graph and t :: string and seen :: "string list" and frontier :: "string list list"
  assume ne: "next_level g seen frontier \<noteq> []"
  have adj_sub: "set (adj_of h v) \<subseteq> nbr_ids h" for h v
  proof (cases "map_of (nx_adj h) v")
    case None
    then show ?thesis by (simp add: adj_of_def)
  next
    case (Some nbrs)
    then have "(v, nbrs) \<in> set (nx_adj h)" by (rule map_of_SomeD)
    then have "fst ` set nbrs \<subseteq> nbr_ids h" by (force simp: nbr_ids_def)
    with Some show ?thesis by (simp add: adj_of_def)
  qed
  have fresh: "p \<in> set (next_level h sn fr) \<Longrightarrow> p \<noteq> [] \<and> hd p \<in> nbr_ids h \<and> hd p \<notin> set sn"
    for p h sn fr
  proof (induction h sn fr rule: next_level.induct)
    case (1 h sn)
    then show ?case by simp
  next
    case (2 h sn ps)
    then show ?case by simp
  next
    case (3 h sn v q ps)
    then show ?case using adj_sub [of h v] by (auto simp: Let_def)
  qed
  let ?nxt = "next_level g seen frontier"
  from ne obtain p where p: "p \<in> set ?nxt" by (cases ?nxt) auto
  from fresh [OF p] have hp: "hd p \<in> nbr_ids g - set seen" by simp
  have fin: "finite (nbr_ids g - set seen)" by (simp add: nbr_ids_def)
  have "nbr_ids g - set (seen @ map hd ?nxt) \<subseteq> nbr_ids g - set seen" by auto
  moreover have "hd p \<notin> nbr_ids g - set (seen @ map hd ?nxt)" using p by auto
  ultimately have "nbr_ids g - set (seen @ map hd ?nxt) \<subset> nbr_ids g - set seen"
    using hp by blast
  then have "card (nbr_ids g - set (seen @ map hd ?nxt)) < card (nbr_ids g - set seen)"
    using fin by (rule psubset_card_mono [rotated])
  then show "((g, t, seen @ map hd ?nxt, ?nxt), (g, t, seen, frontier))
      \<in> measure (\<lambda>(g, t, seen, frontier). card (nbr_ids g - set seen))"
    by simp
qed

text \<open>
  Modelled from the spec: \<open>nx.shortest_path(G, source, target)\<close>, the search started
  at the source, after the check that both endpoints are nodes of the graph.
\<close>

definition shortest_path :: "graph \<Rightarrow> string \<Rightarrow> string \<Rightarrow> error + string list" where
  "shortest_path g source target =
     (if \<not> has_node g source \<or> \<not> has_node g target then Inl NodeNotFound
      else bfs g target [source] [[source]])"

subsection \<open>The class \<open>TrafficKnowledgeGraph\<close>\<close>

record kg =
  G :: graph
  label_to_id :: "string \<rightharpoonup> string"
  id_to_label :: "string \<rightharpoonup> string"

text \<open>
  The graph description read from the JSON file: the value of \<open>data.get("nodes", [])\<close>
  and of \<open>data.get("edges", [])\<close>.
\<close>

record description =
  nodes :: "json_object list"
  edges :: "json_object list"

text \<open>The first loop of \<open>_load_graph\<close>, over the node records.\<close>

fun load_nodes :: "json_object list \<Rightarrow> kg \<Rightarrow> error + kg" where
  "load_nodes [] k = Inr k"
| "load_nodes (node # rest) k =
     (case getitem node ''id'' of
        Inl e \<Rightarrow> Inl e
      | Inr node_id \<Rightarrow>
          (let label = dict_get node ''label'' node_id
           in load_nodes rest
                (k\<lparr> G := add_node node_id node (G k),
                    label_to_id := (label_to_id k)(label \<mapsto> node_id),
                    id_to_label := (id_to_label k)(node_id \<mapsto> label) \<rparr>)))"

text \<open>The second loop of \<open>_load_graph\<close>, over the edge records.\<close>

fun load_edges :: "json_object list \<Rightarrow> kg \<Rightarrow> error + kg" where
  "load_edges [] k = Inr k"
| "load_edges (edge # rest) k =
     (case getitem edge ''from'' of
        Inl e \<Rightarrow> Inl e
      | Inr src \<Rightarrow>
          (case getitem edge ''to'' of
             Inl e \<Rightarrow> Inl e
           | Inr dst \<Rightarrow>
               (let rel = dict_get edge ''relation'' ''CONNECTED_TO''
                in load_edges rest (k\<lparr> G := add_edge src dst rel (G k) \<rparr>))))"

text \<open>The constructor: the empty graph and dictionaries, then \<open>_load_graph\<close>.\<close>

definition load_graph :: "description \<Rightarrow> error + kg" where
  "load_graph d =
     (case load_nodes (nodes d)
             \<lparr> G = empty_graph, label_to_id = Map.empty, id_to_label = Map.empty \<rparr> of
        Inl e \<Rightarrow> Inl e
      | Inr k \<Rightarrow> load_edges (edges d) k)"

definition get_neighbors :: "kg \<Rightarrow> string \<Rightarrow> error + string list" where
  "get_neighbors k node_label =
     (case label_to_id k node_label of
        None \<Rightarrow> Inr []
      | Some node_id \<Rightarrow>
          (case neighbors (G k) node_id of
             Inl e \<Rightarrow> Inl e
           | Inr neighbor_ids \<Rightarrow> getitems (id_to_label k) neighbor_ids))"

definition find_path :: "kg \<Rightarrow> string \<Rightarrow> string \<Rightarrow> error + string list" where
  "find_path k source_label target_label =
     (case label_to_id k source_label of
        None \<Rightarrow> Inr []
      | Some src_id \<Rightarrow>
          (case label_to_id k target_label of
             None \<Rightarrow> Inr []
           | Some tgt_id \<Rightarrow>
               (case shortest_path (G k) src_id tgt_id of
                  Inl NetworkXNoPath \<Rightarrow> Inr []
                | Inl e \<Rightarrow> Inl e
                | Inr path_ids \<Rightarrow> getitems (id_to_label k) path_ids)))"

definition get_node_type :: "kg \<Rightarrow> string \<Rightarrow> error + string option" where
  "get_node_type k node_label =
     (case label_to_id k node_label of
        None \<Rightarrow> Inr None
      | Some node_id \<Rightarrow>
          (case getitem (map_of (nx_node (G k))) node_id of
             Inl e \<Rightarrow> Inl e
           | Inr data \<Rightarrow> Inr (data ''type'')))"

text \<open>
  \<open>get_nodes_by_type\<close>: the loop over \<open>G.nodes(data=True)\<close> that appends to \<open>labels\<close>.
  No operation of it can raise: both dictionaries are read with \<open>.get\<close>, and
  \<open>id_to_label.get(node_id, node_id)\<close> falls back on the node id.
\<close>

fun nodes_by_type_loop ::
  "kg \<Rightarrow> string \<Rightarrow> (string \<times> json_object) list \<Rightarrow> string list \<Rightarrow> string list" where
  "nodes_by_type_loop k node_type [] labels = labels"
| "nodes_by_type_loop k node_type ((node_id, data) # rest) labels =
     (if data ''type'' = Some node_type
      then nodes_by_type_loop k node_type rest
             (labels @ [dict_get (id_to_label k) node_id node_id])
      else nodes_by_type_loop k node_type rest labels)"

definition get_nodes_by_type :: "kg \<Rightarrow> string \<Rightarrow> error + string list" where
  "get_nodes_by_type k node_type = Inr (nodes_by_type_loop k node_type (nx_node (G k)) [])"

text \<open>
  The loop of \<open>find_nearest_node_of_type\<close> over the candidates, with the two
  variables \<open>best_target\<close> and \<open>best_path_ids\<close>.
\<close>

fun nearest_loop ::
  "graph \<Rightarrow> string \<Rightarrow> string list \<Rightarrow> string option \<times> string list option \<Rightarrow>
   error + (string option \<times> string list option)" where
  "nearest_loop g src_id [] best = Inr best"
| "nearest_loop g src_id (tgt_id # rest) (best_target, best_path_ids) =
     (case shortest_path g src_id tgt_id of
        Inl NetworkXNoPath \<Rightarrow> nearest_loop g src_id rest (best_target, best_path_ids)
      | Inl e \<Rightarrow> Inl e
      | Inr path_ids \<Rightarrow>
          (if (case best_path_ids of None \<Rightarrow> True | Some b \<Rightarrow> length path_ids < length b)
           then nearest_loop g src_id rest (Some tgt_id, Some path_ids)
           else nearest_loop g src_id rest (best_target, best_path_ids)))"

text \<open>The comprehension that collects the candidates \<open>target_ids\<close>.\<close>

definition candidates :: "graph \<Rightarrow> string \<Rightarrow> string list" where
  "candidates g target_type =
     map fst (filter (\<lambda>(node_id, data). data ''type'' = Some target_type) (nx_node g))"

definition find_nearest_node_of_type ::
  "kg \<Rightarrow> string \<Rightarrow> string \<Rightarrow> error + (string \<times> string list) option" where
  "find_nearest_node_of_type k source_label target_type =
     (case label_to_id k source_label of
        None \<Rightarrow> Inr None
      | Some src_id \<Rightarrow>
          (let target_ids = candidates (G k) target_type in
           if target_ids = [] then Inr None
           else
             (case nearest_loop (G k) src_id target_ids (None, None) of
                Inl e \<Rightarrow> Inl e
              | Inr (Some best_target, Some best_path_ids) \<Rightarrow>
                  (case getitem (id_to_label k) best_target of
                     Inl e \<Rightarrow> Inl e
                   | Inr target_label \<Rightarrow>
                       (case getitems (id_to_label k) best_path_ids of
                          Inl e \<Rightarrow> Inl e
                        | Inr path_labels \<Rightarrow> Inr (Some (target_label, path_labels))))
              | Inr _ \<Rightarrow> Inr None)))"

subsection \<open>Paths and distances, to state the properties\<close>

text \<open>
  A walk is a non-empty list of nodes in which each node is a neighbour of the one
  before. The hop-distance of two nodes is one less than the least number of nodes
  of a walk between them.
\<close>

fun walk :: "graph \<Rightarrow> string list \<Rightarrow> bool" where
  "walk g [] = False"
| "walk g [v] = True"
| "walk g (u # v # p) = (v \<in> set (adj_of g u) \<and> walk g (v # p))"

definition walk_from_to :: "graph \<Rightarrow> string \<Rightarrow> string \<Rightarrow> string list \<Rightarrow> bool" where
  "walk_from_to g a b p = (walk g p \<and> hd p = a \<and> last p = b)"

definition reachable :: "graph \<Rightarrow> string \<Rightarrow> string \<Rightarrow> bool" where
  "reachable g a b = (\<exists>p. walk_from_to g a b p)"

definition hop_distance :: "graph \<Rightarrow> string \<Rightarrow> string \<Rightarrow> nat" where
  "hop_distance g a b = (LEAST n. \<exists>p. walk_from_to g a b p \<and> length p = Suc n)"

text \<open>The nodes of the graph, and the type stored for a node.\<close>

definition node_keys :: "graph \<Rightarrow> string set" where
  "node_keys g = fst ` set (nx_node g)"


definition stored_type :: "graph \<Rightarrow> string \<Rightarrow> string option" where
  "stored_type g n = (case map_of (nx_node g) n of None \<Rightarrow> None | Some data \<Rightarrow> data ''type'')"

text \<open>
  What the external interface asks of a graph description: the node ids are
  pairwise distinct, the labels (the id where the record has no label) are
  pairwise distinct, and each edge names listed node ids.
\<close>

definition ids_of :: "json_object list \<Rightarrow> string list" where
  "ids_of ns = map (\<lambda>node. the (node ''id'')) ns"

definition labels_of :: "json_object list \<Rightarrow> string list" where
  "labels_of ns =
     map (\<lambda>node. dict_get node ''label'' (the (node ''id''))) ns"

definition endpoints_of :: "json_object list \<Rightarrow> string list" where
  "endpoints_of es = concat (map (\<lambda>edge. [the (edge ''from''), the (edge ''to'')]) es)"

definition node_ids :: "description \<Rightarrow> string list" where
  "node_ids d = ids_of (nodes d)"

definition node_labels :: "description \<Rightarrow> string list" where
  "node_labels d = labels_of (nodes d)"

definition edges_closed :: "description \<Rightarrow> bool" where
  "edges_closed d = (set (endpoints_of (edges d)) \<subseteq> set (node_ids d))"

definition well_formed :: "description \<Rightarrow> bool" where
  "well_formed d = (distinct (node_ids d) \<and> distinct (node_labels d) \<and> edges_closed d)"

text \<open>
  For the correctness of the search: \<open>lvl g s n v\<close> says that some walk from \<open>s\<close> to
  \<open>v\<close> has \<open>n\<close> nodes; \<open>within\<close> collects the nodes with a walk of at most \<open>n\<close> nodes,
  \<open>exact\<close> those whose shortest walk has \<open>n\<close> nodes. \<open>bfs_inv\<close> is the invariant of
  the search at the level of paths with \<open>n\<close> nodes.
\<close>

definition lvl :: "graph \<Rightarrow> string \<Rightarrow> nat \<Rightarrow> string \<Rightarrow> bool" where
  "lvl g s n v = (\<exists>p. walk_from_to g s v p \<and> length p = n)"

definition within :: "graph \<Rightarrow> string \<Rightarrow> nat \<Rightarrow> string set" where
  "within g s n = {v. \<exists>m\<le>n. lvl g s m v}"

definition exact :: "graph \<Rightarrow> string \<Rightarrow> nat \<Rightarrow> string set" where
  "exact g s n = {v. lvl g s n v \<and> (\<forall>m. lvl g s m v \<longrightarrow> n \<le> m)}"

definition bfs_inv :: "graph \<Rightarrow> string \<Rightarrow> nat \<Rightarrow> string list \<Rightarrow> string list list \<Rightarrow> bool" where
  "bfs_inv g s n seen frontier =
     ((\<forall>p\<in>set frontier. p \<noteq> [] \<and> walk_from_to g s (hd p) (rev p) \<and> length p = n) \<and>
      set seen = within g s n \<and>
      hd ` set frontier = exact g s n)"

text \<open>
  For the loop of \<open>find_nearest_node_of_type\<close>: what the pair of \<open>best_target\<close> and
  \<open>best_path_ids\<close> holds after the candidates in \<open>S\<close> have been tried from \<open>s\<close>.
\<close>

definition best_ok ::
  "graph \<Rightarrow> string \<Rightarrow> string set \<Rightarrow> string option \<times> string list option \<Rightarrow> bool" where
  "best_ok g s S best =
     ((best = (None, None) \<and> (\<forall>t\<in>S. \<not> reachable g s t)) \<or>
      (\<exists>t p. best = (Some t, Some p) \<and> t \<in> S \<and> walk_from_to g s t p \<and>
         (\<forall>t'\<in>S. \<forall>q. walk_from_to g s t' q \<longrightarrow> length p \<le> length q)))"

subsection \<open>Graph descriptions used as examples\<close>

text \<open>The state that the constructor returns for a description that loads.\<close>

definition loaded :: "description \<Rightarrow> kg" where
  "loaded d =
     (case load_graph d of
        Inr k \<Rightarrow> k
      | Inl e \<Rightarrow> \<lparr> G = empty_graph, label_to_id = Map.empty, id_to_label = Map.empty \<rparr>)"

text \<open>The example scenario of the specification: an intersection next to a hospital.\<close>

definition example_desc :: description where
  "example_desc =
     \<lparr> nodes = [[''id'' \<mapsto> ''INT_1'', ''label'' \<mapsto> ''Intersection 4'', ''type'' \<mapsto> ''intersection''],
                [''id'' \<mapsto> ''HOSP_1'', ''label'' \<mapsto> ''Central Hospital'', ''type'' \<mapsto> ''hospital'']],
       edges = [[''from'' \<mapsto> ''INT_1'', ''to'' \<mapsto> ''HOSP_1'']] \<rparr>"

text \<open>One listed node, and an edge from it to an id that no node record has.\<close>

definition dangling_desc :: description where
  "dangling_desc =
     \<lparr> nodes = [[''id'' \<mapsto> ''a'', ''label'' \<mapsto> ''A'', ''type'' \<mapsto> ''intersection'']],
       edges = [[''from'' \<mapsto> ''a'', ''to'' \<mapsto> ''x'']] \<rparr>"

text \<open>Two listed nodes that are connected only through an id that no node record has.\<close>

definition detour_desc :: description where
  "detour_desc =
     \<lparr> nodes = [[''id'' \<mapsto> ''a'', ''label'' \<mapsto> ''A'', ''type'' \<mapsto> ''intersection''],
                [''id'' \<mapsto> ''h'', ''label'' \<mapsto> ''H'', ''type'' \<mapsto> ''hospital'']],
       edges = [[''from'' \<mapsto> ''a'', ''to'' \<mapsto> ''x''],
                [''from'' \<mapsto> ''x'', ''to'' \<mapsto> ''h'']] \<rparr>"

text \<open>Two node records with the same id and different labels, and a third node next to it.\<close>

definition dup_id_desc :: description where
  "dup_id_desc =
     \<lparr> nodes = [[''id'' \<mapsto> ''n1'', ''label'' \<mapsto> ''A'', ''type'' \<mapsto> ''hospital''],
                [''id'' \<mapsto> ''n1'', ''label'' \<mapsto> ''B'', ''type'' \<mapsto> ''hospital''],
                [''id'' \<mapsto> ''n2'', ''label'' \<mapsto> ''C'', ''type'' \<mapsto> ''road'']],
       edges = [[''from'' \<mapsto> ''n1'', ''to'' \<mapsto> ''n2'']] \<rparr>"

text \<open>
  A state built by hand, in which the node \<open>h1\<close> has a type and no entry in
  \<open>id_to_label\<close>.
\<close>

definition unlabelled_kg :: kg where
  "unlabelled_kg =
     \<lparr> G = \<lparr> nx_node = [(''a'', [''type'' \<mapsto> ''intersection'']), (''h1'', [''type'' \<mapsto> ''hospital''])],
             nx_adj = [(''a'', [(''h1'', ''CONNECTED_TO'')]), (''h1'', [(''a'', ''CONNECTED_TO'')])] \<rparr>,
       label_to_id = [''A'' \<mapsto> ''a''],
       id_to_label = [''a'' \<mapsto> ''A''] \<rparr>"

section \<open>Properties of the string functions\<close>

lemma takeWhile_all_space: "list_all is_space (takeWhile is_space s)"
  by (induction s) auto

lemma strip_decompose:
  "t = takeWhile is_space t @ strip t @ rev (takeWhile is_space (rev (dropWhile is_space t)))"
proof -
  let ?d = "dropWhile is_space t"
  have "rev ?d = takeWhile is_space (rev ?d) @ dropWhile is_space (rev ?d)"
    by simp
  then have "?d = rev (dropWhile is_space (rev ?d)) @ rev (takeWhile is_space (rev ?d))"
    by (metis rev_append rev_rev_ident)
  then have "?d = strip t @ rev (takeWhile is_space (rev ?d))"
    by (simp add: strip_def)
  moreover have "t = takeWhile is_space t @ ?d"
    by simp
  ultimately show ?thesis
    by metis
qed

lemma strip_hd: "strip t \<noteq> [] \<Longrightarrow> \<not> is_space (hd (strip t))"
proof -
  assume ne: "strip t \<noteq> []"
  let ?d = "dropWhile is_space t"
  have d: "?d = strip t @ rev (takeWhile is_space (rev ?d))"
    using strip_decompose [of t] by (metis same_append_eq takeWhile_dropWhile_id)
  from ne d have "?d \<noteq> []" by (metis Nil_is_append_conv)
  then have "\<not> is_space (hd ?d)" by (rule hd_dropWhile)
  moreover from ne d have "hd ?d = hd (strip t)" by (metis hd_append2)
  ultimately show ?thesis by simp
qed

lemma strip_last: "strip t \<noteq> [] \<Longrightarrow> \<not> is_space (last (strip t))"
proof -
  assume ne: "strip t \<noteq> []"
  let ?r = "rev (dropWhile is_space t)"
  from ne have "dropWhile is_space ?r \<noteq> []" by (simp add: strip_def)
  then have "\<not> is_space (hd (dropWhile is_space ?r))" by (rule hd_dropWhile)
  moreover have "last (strip t) = hd (dropWhile is_space ?r)"
    using ne by (simp add: strip_def last_rev)
  ultimately show ?thesis by simp
qed

lemma strip_trimmed: "trimmed t (strip t)"
proof -
  have "list_all is_space (rev (takeWhile is_space (rev (dropWhile is_space t))))"
    using takeWhile_all_space [of "rev (dropWhile is_space t)"] by (simp add: list_all_iff)
  then have "\<exists>a b. t = a @ strip t @ b \<and> list_all is_space a \<and> list_all is_space b"
    using strip_decompose [of t] takeWhile_all_space [of t] by blast
  then show ?thesis
    using strip_hd [of t] strip_last [of t] by (simp add: trimmed_def)
qed

section \<open>The language-model client\<close>

lemma provider_outcome_total:
  "\<exists>out. provider_outcome api prompt system_instruction model_name out"
proof -
  let ?si = "if system_instruction = Some [] then None else system_instruction"
  show ?thesis
  proof (cases "GenerativeModel api model_name ?si")
    case (Inl e)
    then have "provider_outcome api prompt system_instruction model_name (Throws e)"
      by (simp add: provider_outcome_def)
    then show ?thesis ..
  next
    case m: (Inr m)
    show ?thesis
    proof (cases "generate_content api m prompt")
      case (Inl e)
      with m have "provider_outcome api prompt system_instruction model_name (Throws e)"
        by (simp add: provider_outcome_def)
      then show ?thesis ..
    next
      case r: (Inr r)
      show ?thesis
      proof (cases "response_text r")
        case Missing
        with m r have "provider_outcome api prompt system_instruction model_name Unusable"
          by (simp add: provider_outcome_def)
        then show ?thesis ..
      next
        case (Raising e)
        with m r have "provider_outcome api prompt system_instruction model_name (Throws e)"
          by (simp add: provider_outcome_def)
        then show ?thesis ..
      next
        case (Value v)
        show ?thesis
        proof (cases "v = None \<or> v = Some []")
          case True
          with Value m r have "provider_outcome api prompt system_instruction model_name Unusable"
            by (auto simp: provider_outcome_def)
          then show ?thesis ..
        next
          case False
          then obtain t where "v = Some t" "t \<noteq> []" by auto
          with Value m r have "provider_outcome api prompt system_instruction model_name (Usable t)"
            by (simp add: provider_outcome_def)
          then show ?thesis ..
        qed
      qed
    qed
  qed
qed

lemma call_llm_outcome:
  assumes "provider_outcome api prompt system_instruction model_name out"
  shows "call_llm api prompt system_instruction model_name =
           (case out of
              Throws e \<Rightarrow> ''[LLM ERROR] '' @ str e
            | Usable t \<Rightarrow> strip t
            | Unusable \<Rightarrow> no_text_response)"
proof -
  let ?si = "if system_instruction = Some [] then None else system_instruction"
  have si: "(if system_instruction \<noteq> None \<and> system_instruction \<noteq> Some []
             then GenerativeModel api model_name system_instruction
             else GenerativeModel api model_name None) = GenerativeModel api model_name ?si"
    by auto
  show ?thesis
  proof (cases out)
    case (Throws e)
    with assms show ?thesis
      unfolding call_llm_def call_llm_try_def si
      by (auto simp: provider_outcome_def Let_def)
  next
    case (Usable t)
    with assms show ?thesis
      unfolding call_llm_def call_llm_try_def si
      by (auto simp: provider_outcome_def Let_def)
  next
    case Unusable
    with assms show ?thesis
      unfolding call_llm_def call_llm_try_def si
      by (auto simp: provider_outcome_def Let_def)
  qed
qed

text \<open>
  Claim C2. Whatever the prompt, the optional system instruction and the model
  name, and whatever the provider does, \<open>call_llm\<close> returns a string: the provider
  raises, answers with usable text or answers without (one of the three always
  applies), and the string returned is then the error sentinel that embeds the
  description of the exception, the response text with the surrounding
  whitespace trimmed, or the fixed sentinel for a response without text.
\<close>

theorem call_llm_always_returns_string:
  "\<exists>out. provider_outcome api prompt system_instruction model_name out \<and>
     (case out of
        Throws e \<Rightarrow>
          call_llm api prompt system_instruction model_name = ''[LLM ERROR] '' @ str e
      | Usable t \<Rightarrow>
          call_llm api prompt system_instruction model_name = strip t \<and> trimmed t (strip t)
      | Unusable \<Rightarrow>
          call_llm api prompt system_instruction model_name = ''[LLM returned no text response]'')"
proof -
  obtain out where out: "provider_outcome api prompt system_instruction model_name out"
    using provider_outcome_total by blast
  show ?thesis
  proof (intro exI conjI)
    show "provider_outcome api prompt system_instruction model_name out" by (rule out)
    show "case out of
        Throws e \<Rightarrow>
          call_llm api prompt system_instruction model_name = ''[LLM ERROR] '' @ str e
      | Usable t \<Rightarrow>
          call_llm api prompt system_instruction model_name = strip t \<and> trimmed t (strip t)
      | Unusable \<Rightarrow>
          call_llm api prompt system_instruction model_name = ''[LLM returned no text response]''"
      using call_llm_outcome [OF out] strip_trimmed
      by (cases out) (simp_all add: no_text_response_def)
  qed
qed


theorem call_llm_always_returns_string_witness:
  "call_llm llm_test_api ''  hi  '' None ''m'' = ''hi''"
proof -
  obtain out where o: "provider_outcome llm_test_api ''  hi  '' None ''m'' out"
    and c: "case out of
        Throws e \<Rightarrow> call_llm llm_test_api ''  hi  '' None ''m'' = ''[LLM ERROR] '' @ str e
      | Usable t \<Rightarrow> call_llm llm_test_api ''  hi  '' None ''m'' = strip t \<and> trimmed t (strip t)
      | Unusable \<Rightarrow> call_llm llm_test_api ''  hi  '' None ''m'' = ''[LLM returned no text response]''"
    using call_llm_always_returns_string [of llm_test_api "''  hi  ''" None "''m''"] by blast
  from o have "out = Usable ''  hi  ''"
    by (cases out) (auto simp: provider_outcome_def llm_test_api_def)
  with c show ?thesis by (simp add: strip_def is_space_def)
qed
section \<open>The document retriever\<close>

lemma format_hits_zip:
  "length docs = length dists \<Longrightarrow> length metas = length dists \<Longrightarrow>
     map hit_text (format_hits docs metas dists) = docs \<and>
     map hit_metadata (format_hits docs metas dists) = metas \<and>
     map hit_score (format_hits docs metas dists) = dists"
proof (induction docs metas dists rule: format_hits.induct)
  case (1 t docs meta metas dist dists)
  then show ?case by simp
qed simp_all

text \<open>
  Claim C7. For a query that is empty or consists of whitespace only, \<open>retrieve\<close>
  returns the empty list and makes no call: the log of external calls is
  unchanged. For a non-empty query and a positive \<open>k\<close>, where the embedding model
  returns and the index answers the query as specified, \<open>retrieve\<close> returns at most
  \<open>k\<close> results, in non-decreasing order of score, and (unless the query is
  whitespace only, when there are none) the results carry, in the order of the
  index, the text, the metadata and the distance of each hit.
\<close>

theorem retrieve_results:
  fixes self :: "('e, 'm, 's::linorder) rag_retriever"
  shows "(query = [] \<or> strip query = [] \<longrightarrow> retrieve self log query k = (Inr [], log)) \<and>
         (query \<noteq> [] \<and> 0 < k \<and> encode self query = Inr emb \<and> index_answers self emb k ds ms xs \<longrightarrow>
            (\<exists>rs log'. retrieve self log query k = (Inr rs, log') \<and>
               int (length rs) \<le> k \<and>
               (\<exists>ys. map hit_score rs = map Some ys \<and> sorted ys) \<and>
               (strip query \<noteq> [] \<longrightarrow>
                  map hit_text rs = ds \<and> map hit_metadata rs = ms \<and> map hit_score rs = map Some xs)))"
proof (intro conjI impI)
  assume "query = [] \<or> strip query = []"
  then show "retrieve self log query k = (Inr [], log)" by (auto simp: retrieve_def)
next
  assume a: "query \<noteq> [] \<and> 0 < k \<and> encode self query = Inr emb \<and> index_answers self emb k ds ms xs"
  show "\<exists>rs log'. retrieve self log query k = (Inr rs, log') \<and>
               int (length rs) \<le> k \<and>
               (\<exists>ys. map hit_score rs = map Some ys \<and> sorted ys) \<and>
               (strip query \<noteq> [] \<longrightarrow>
                  map hit_text rs = ds \<and> map hit_metadata rs = ms \<and> map hit_score rs = map Some xs)"
  proof (cases "strip query = []")
    case True
    then have "retrieve self log query k = (Inr [], log)" by (simp add: retrieve_def)
    moreover have "map hit_score ([] :: ('m, 's) hit list) = map Some [] \<and> sorted ([] :: 's list)"
      by simp
    ultimately show ?thesis using a True by force
  next
    case False
    from a have q: "collection_query self [emb] k =
        Inr \<lparr> documents = Some [ds], metadatas = Some [ms], distances = Some [xs] \<rparr>"
      and len: "length ds = length xs" "length ms = length xs" and k: "int (length xs) \<le> k"
      and srt: "sorted xs" and enc: "encode self query = Inr emb" and ne: "query \<noteq> []"
      by (simp_all add: index_answers_def)
    let ?rs = "format_hits ds ms (map Some xs)"
    have r: "retrieve self log query k = (Inr ?rs, log @ [Embed query] @ [Query [emb] k])"
      using False ne enc q by (simp add: retrieve_def embed_query_def first_item_def Let_def)
    have f: "map hit_text ?rs = ds \<and> map hit_metadata ?rs = ms \<and> map hit_score ?rs = map Some xs"
      by (rule format_hits_zip) (simp_all add: len)
    then have "length ?rs = length xs" by (metis length_map)
    with k have l: "int (length ?rs) \<le> k" by simp
    have s: "\<exists>ys. map hit_score ?rs = map Some ys \<and> sorted ys" using f srt by blast
    from r l s f show ?thesis by blast
  qed
qed

theorem retrieve_results_witness:
  "retrieve test_retriever [] ''   '' 2 = (Inr [], []) \<and>
   encode test_retriever ''traffic'' = Inr 7 \<and>
   index_answers test_retriever 7 2 [''d1'', ''d2''] [''m1'', ''m2''] [1, 4] \<and>
   (\<exists>rs log'. retrieve test_retriever [] ''traffic'' 2 = (Inr rs, log') \<and>
      int (length rs) \<le> 2 \<and> map hit_text rs = [''d1'', ''d2''] \<and>
      map hit_score rs = [Some 1, Some 4])"
proof -
  have ws: "strip ''   '' = []" by (simp add: strip_def is_space_def)
  have ia: "index_answers test_retriever 7 2 [''d1'', ''d2''] [''m1'', ''m2''] [1, 4]"
    by (simp add: index_answers_def test_retriever_def numeral_2_eq_2)
  have enc: "encode test_retriever ''traffic'' = Inr 7" by (simp add: test_retriever_def)
  have st: "strip ''traffic'' \<noteq> []" by (simp add: strip_def is_space_def)
  from retrieve_results [of "''   ''" test_retriever "[]" 2] ws
  have e: "retrieve test_retriever [] ''   '' 2 = (Inr [], [])" by simp
  from retrieve_results [of "''traffic''" test_retriever "[]" 2 7
      "[''d1'', ''d2'']" "[''m1'', ''m2'']" "[1, 4]"] ia enc st
  have "\<exists>rs log'. retrieve test_retriever [] ''traffic'' 2 = (Inr rs, log') \<and>
      int (length rs) \<le> 2 \<and> map hit_text rs = [''d1'', ''d2''] \<and>
      map hit_score rs = [Some 1, Some 4]"
    by auto
  with e ia enc show ?thesis by simp
qed

section \<open>Correctness of the shortest-path search\<close>

lemma walk_nonempty: "walk g p \<Longrightarrow> p \<noteq> []"
  by (cases p) auto

lemma walk_snoc: "walk g (q @ [v]) \<Longrightarrow> w \<in> set (adj_of g v) \<Longrightarrow> walk g (q @ [v, w])"
  by (induction g q rule: walk.induct) auto

lemma walk_snocD: "walk g (q @ [v, w]) \<Longrightarrow> walk g (q @ [v]) \<and> w \<in> set (adj_of g v)"
  by (induction g q rule: walk.induct) auto

lemma lvl_pos: "lvl g s n v \<Longrightarrow> 0 < n"
  by (auto simp: lvl_def walk_from_to_def dest: walk_nonempty)

lemma lvl_one: "lvl g s (Suc 0) v \<longleftrightarrow> v = s"
proof
  assume "lvl g s (Suc 0) v"
  then obtain p where "walk_from_to g s v p" "length p = Suc 0" by (auto simp: lvl_def)
  then show "v = s" by (cases p) (auto simp: walk_from_to_def)
next
  assume "v = s"
  then have "walk_from_to g s v [s]" by (simp add: walk_from_to_def)
  then show "lvl g s (Suc 0) v" unfolding lvl_def by force
qed

lemma lvl_step: "lvl g s n v \<Longrightarrow> w \<in> set (adj_of g v) \<Longrightarrow> lvl g s (Suc n) w"
proof -
  assume "lvl g s n v" and w: "w \<in> set (adj_of g v)"
  then obtain p where p: "walk g p" "hd p = s" "last p = v" "length p = n"
    by (auto simp: lvl_def walk_from_to_def)
  then have ne: "p \<noteq> []" by (auto dest: walk_nonempty)
  then obtain q where pe: "p = q @ [v]" using p(3) by (metis append_butlast_last_id)
  have "walk g (q @ [v, w])" using p(1) w unfolding pe by (rule walk_snoc)
  then have "walk g (p @ [w])" by (simp add: pe)
  moreover have "hd (p @ [w]) = s" using ne p(2) by simp
  ultimately have "walk_from_to g s w (p @ [w])" by (simp add: walk_from_to_def)
  moreover have "length (p @ [w]) = Suc n" using p(4) by simp
  ultimately show ?thesis unfolding lvl_def by blast
qed

lemma lvl_pred: "lvl g s (Suc (Suc n)) w \<Longrightarrow> \<exists>v. lvl g s (Suc n) v \<and> w \<in> set (adj_of g v)"
proof -
  assume "lvl g s (Suc (Suc n)) w"
  then obtain p where p: "walk g p" "hd p = s" "last p = w" "length p = Suc (Suc n)"
    by (auto simp: lvl_def walk_from_to_def)
  then have "p \<noteq> []" by auto
  then obtain q1 where q1: "p = q1 @ [w]" using p(3) by (metis append_butlast_last_id)
  with p(4) have "length q1 = Suc n" by simp
  then have "q1 \<noteq> []" by auto
  then obtain q v where q: "q1 = q @ [v]" by (metis append_butlast_last_id)
  have pe: "p = q @ [v, w]" by (simp add: q1 q)
  have "walk g (q @ [v, w])" using p(1) by (simp add: pe)
  then have w1: "walk g (q @ [v])" and w2: "w \<in> set (adj_of g v)"
    using walk_snocD by blast+
  have "hd (q @ [v]) = s" using p(2) unfolding pe by (cases q) auto
  then have "walk_from_to g s v (q @ [v])" using w1 by (simp add: walk_from_to_def)
  moreover have "length (q @ [v]) = Suc n" using p(4) by (simp add: pe)
  ultimately have "lvl g s (Suc n) v" unfolding lvl_def by blast
  then show ?thesis using w2 by blast
qed

lemma exact_pred:
  assumes "w \<in> exact g s (Suc (Suc n))"
  shows "\<exists>v \<in> exact g s (Suc n). w \<in> set (adj_of g v)"
proof -
  from assms have l: "lvl g s (Suc (Suc n)) w" and mn: "\<And>m. lvl g s m w \<Longrightarrow> Suc (Suc n) \<le> m"
    by (auto simp: exact_def)
  from lvl_pred [OF l] obtain v where v: "lvl g s (Suc n) v" "w \<in> set (adj_of g v)" by blast
  have "Suc n \<le> m" if "lvl g s m v" for m
    using mn [OF lvl_step [OF that v(2)]] by simp
  with v show ?thesis unfolding exact_def by blast
qed

lemma exact_empty_up: "exact g s (Suc n) = {} \<Longrightarrow> exact g s (Suc n + k) = {}"
proof (induction k)
  case 0
  then show ?case by simp
next
  case (Suc k)
  then have IH: "exact g s (Suc (n + k)) = {}" by simp
  show ?case
  proof (rule ccontr)
    assume "exact g s (Suc n + Suc k) \<noteq> {}"
    then obtain w where "w \<in> exact g s (Suc (Suc (n + k)))" by auto
    from exact_pred [OF this] obtain v where "v \<in> exact g s (Suc (n + k))" by blast
    with IH show False by simp
  qed
qed

lemma reachable_exact:
  assumes "reachable g s t"
  shows "\<exists>n. t \<in> exact g s n"
proof -
  from assms have ex: "\<exists>n. lvl g s n t" by (auto simp: reachable_def lvl_def)
  let ?n = "LEAST n. lvl g s n t"
  have "lvl g s ?n t" using ex by (metis LeastI)
  moreover have "\<forall>m. lvl g s m t \<longrightarrow> ?n \<le> m" by (simp add: Least_le)
  ultimately show ?thesis unfolding exact_def by blast
qed

lemma next_level_heads:
  "hd ` set (next_level g seen fr) =
     {w. w \<notin> set seen \<and> (\<exists>p\<in>set fr. p \<noteq> [] \<and> w \<in> set (adj_of g (hd p)))}"
proof (induction g seen fr rule: next_level.induct)
  case (1 g seen)
  then show ?case by simp
next
  case (2 g seen ps)
  then show ?case by auto
next
  case (3 g seen v q ps)
  let ?new = "filter (\<lambda>w. w \<notin> set seen) (adj_of g v)"
  have "hd ` set (map (\<lambda>w. w # v # q) ?new) = set ?new"
    by (simp add: image_image)
  then have "hd ` set (next_level g seen ((v # q) # ps)) =
          set ?new \<union> hd ` set (next_level g (seen @ ?new) ps)"
    by (simp add: Let_def image_Un)
  also have "\<dots> = set ?new \<union> {w. w \<notin> set (seen @ ?new) \<and> (\<exists>p\<in>set ps. p \<noteq> [] \<and> w \<in> set (adj_of g (hd p)))}"
    using 3 by simp
  also have "\<dots> = {w. w \<notin> set seen \<and> (\<exists>p\<in>set ((v # q) # ps). p \<noteq> [] \<and> w \<in> set (adj_of g (hd p)))}"
    by auto
  finally show ?case .
qed

lemma next_level_paths:
  "p' \<in> set (next_level g seen fr) \<Longrightarrow>
     \<exists>p\<in>set fr. \<exists>w. p' = w # p \<and> p \<noteq> [] \<and> w \<in> set (adj_of g (hd p))"
proof (induction g seen fr rule: next_level.induct)
  case (1 g seen)
  then show ?case by simp
next
  case (2 g seen ps)
  then show ?case by auto
next
  case (3 g seen v q ps)
  then show ?case by (auto simp: Let_def)
qed

lemma within_Suc: "within g s (Suc n) = within g s n \<union> exact g s (Suc n)"
proof -
  have "v \<in> within g s n \<union> exact g s (Suc n)" if "v \<in> within g s (Suc n)" for v
  proof (cases "v \<in> within g s n")
    case True
    then show ?thesis by simp
  next
    case False
    then have no: "\<And>m. lvl g s m v \<Longrightarrow> \<not> m \<le> n" by (auto simp: within_def)
    from that obtain m where m: "m \<le> Suc n" "lvl g s m v" by (auto simp: within_def)
    with no have "m = Suc n" by (metis le_SucE)
    with m no have "v \<in> exact g s (Suc n)"
      by (auto simp: exact_def not_less_eq_eq)
    then show ?thesis by simp
  qed
  moreover have "within g s n \<subseteq> within g s (Suc n)"
    unfolding within_def using le_SucI by blast
  moreover have "exact g s (Suc n) \<subseteq> within g s (Suc n)" by (auto simp: within_def exact_def)
  ultimately show ?thesis by blast
qed

lemma bfs_inv_step:
  assumes inv: "bfs_inv g s (Suc n) seen fr"
  shows "bfs_inv g s (Suc (Suc n)) (seen @ map hd (next_level g seen fr)) (next_level g seen fr)"
proof -
  let ?nxt = "next_level g seen fr"
  from inv have fr: "\<And>p. p \<in> set fr \<Longrightarrow> p \<noteq> [] \<and> walk_from_to g s (hd p) (rev p) \<and> length p = Suc n"
    and seen: "set seen = within g s (Suc n)"
    and heads: "hd ` set fr = exact g s (Suc n)"
    by (auto simp: bfs_inv_def)
  have paths: "p' \<noteq> [] \<and> walk_from_to g s (hd p') (rev p') \<and> length p' = Suc (Suc n)"
    if "p' \<in> set ?nxt" for p'
  proof -
    from next_level_paths [OF that] obtain p w where
      p: "p \<in> set fr" "p' = w # p" "p \<noteq> []" "w \<in> set (adj_of g (hd p))" by blast
    from fr [OF p(1)] have wp: "walk g (rev p)" "hd (rev p) = s" "length p = Suc n"
      by (auto simp: walk_from_to_def)
    from p(3) have rp: "rev p = rev (tl p) @ [hd p]" by (cases p) auto
    then have "walk g (rev (tl p) @ [hd p, w])" using wp(1) p(4) walk_snoc by metis
    then have "walk g (rev p')" using p(2) rp by simp
    moreover have "hd (rev p') = s" using p(2) p(3) wp(2) by (simp add: hd_append)
    ultimately show ?thesis using p(2) wp(3) by (simp add: walk_from_to_def)
  qed
  have hd_eq: "hd ` set ?nxt = exact g s (Suc (Suc n))"
  proof -
    have "(\<exists>p\<in>set fr. p \<noteq> [] \<and> w \<in> set (adj_of g (hd p))) \<longleftrightarrow>
          (\<exists>v\<in>hd ` set fr. w \<in> set (adj_of g v))" for w
      using fr by blast
    then have "hd ` set ?nxt =
            {w. w \<notin> within g s (Suc n) \<and> (\<exists>v\<in>exact g s (Suc n). w \<in> set (adj_of g v))}"
      unfolding next_level_heads seen heads by simp
    also have "\<dots> = exact g s (Suc (Suc n))"
    proof (intro equalityI subsetI)
      fix w assume "w \<in> {w. w \<notin> within g s (Suc n) \<and> (\<exists>v\<in>exact g s (Suc n). w \<in> set (adj_of g v))}"
      then obtain v where nw: "w \<notin> within g s (Suc n)" and v: "v \<in> exact g s (Suc n)"
        and a: "w \<in> set (adj_of g v)" by blast
      from v have "lvl g s (Suc n) v" by (simp add: exact_def)
      then have "lvl g s (Suc (Suc n)) w" using a by (rule lvl_step)
      moreover have "Suc (Suc n) \<le> m" if "lvl g s m w" for m
        using nw that by (auto simp: within_def not_less_eq_eq)
      ultimately show "w \<in> exact g s (Suc (Suc n))" by (simp add: exact_def)
    next
      fix w assume w: "w \<in> exact g s (Suc (Suc n))"
      from exact_pred [OF w] obtain v where "v \<in> exact g s (Suc n)" "w \<in> set (adj_of g v)" by blast
      moreover have "w \<notin> within g s (Suc n)" using w by (auto simp: within_def exact_def)
      ultimately show "w \<in> {w. w \<notin> within g s (Suc n) \<and> (\<exists>v\<in>exact g s (Suc n). w \<in> set (adj_of g v))}"
        by blast
    qed
    finally show ?thesis .
  qed
  have "set (seen @ map hd ?nxt) = within g s (Suc n) \<union> hd ` set ?nxt"
    using seen by simp
  then have "set (seen @ map hd ?nxt) = within g s (Suc (Suc n))"
    using hd_eq within_Suc by simp
  with paths hd_eq show ?thesis unfolding bfs_inv_def by blast
qed

lemma bfs_correct:
  assumes "bfs_inv g s (Suc n) seen fr" and "\<And>m. lvl g s m t \<Longrightarrow> Suc n \<le> m"
  shows "(reachable g s t \<longrightarrow>
            (\<exists>p. bfs g t seen fr = Inr p \<and> walk_from_to g s t p \<and>
                 (\<forall>q. walk_from_to g s t q \<longrightarrow> length p \<le> length q))) \<and>
         (\<not> reachable g s t \<longrightarrow> bfs g t seen fr = Inl NetworkXNoPath)"
  using assms
proof (induction g t seen fr arbitrary: n rule: bfs.induct)
  case (1 g t seen fr)
  note inv = "1.prems"(1) and far = "1.prems"(2)
  from inv have fr: "\<And>p. p \<in> set fr \<Longrightarrow> p \<noteq> [] \<and> walk_from_to g s (hd p) (rev p) \<and> length p = Suc n"
    and heads: "hd ` set fr = exact g s (Suc n)"
    by (auto simp: bfs_inv_def)
  show ?case
  proof (cases "find (\<lambda>p. p \<noteq> [] \<and> hd p = t) fr")
    case (Some p)
    then have pin: "p \<in> set fr" and pt: "hd p = t" and pne: "p \<noteq> []"
      by (auto simp: find_Some_iff)
    from fr [OF pin] pt have w: "walk_from_to g s t (rev p)" and len: "length p = Suc n" by auto
    have "length (rev p) \<le> length q" if "walk_from_to g s t q" for q
      using far [of "length q"] that len unfolding lvl_def by auto
    moreover have "bfs g t seen fr = Inr (rev p)" using Some by simp
    moreover have "reachable g s t" using w unfolding reachable_def by blast
    ultimately show ?thesis using w by blast
  next
    case None
    then have nohd: "\<And>p. p \<in> set fr \<Longrightarrow> hd p \<noteq> t" using fr by (auto simp: find_None_iff)
    then have "t \<notin> hd ` set fr" by blast
    then have tnot: "t \<notin> exact g s (Suc n)" using heads by simp
    have far': "Suc (Suc n) \<le> m" if "lvl g s m t" for m
    proof -
      from far [OF that] have "Suc n \<le> m" .
      moreover have "m \<noteq> Suc n" using tnot that far unfolding exact_def by auto
      ultimately show ?thesis by simp
    qed
    let ?nxt = "next_level g seen fr"
    show ?thesis
    proof (cases "?nxt = []")
      case True
      have "exact g s (Suc (Suc n)) = {}"
        using bfs_inv_step [OF inv] True by (simp add: bfs_inv_def)
      then have up: "exact g s (Suc (Suc n) + k) = {}" for k by (rule exact_empty_up)
      have "\<not> reachable g s t"
      proof
        assume "reachable g s t"
        then obtain m where m: "t \<in> exact g s m" using reachable_exact by blast
        then have "Suc (Suc n) \<le> m" using far' by (simp add: exact_def)
        then obtain k where "m = Suc (Suc n) + k" using le_Suc_ex by blast
        with up [of k] m show False by simp
      qed
      moreover have "bfs g t seen fr = Inl NetworkXNoPath" using None True by simp
      ultimately show ?thesis by simp
    next
      case False
      have "bfs g t seen fr = bfs g t (seen @ map hd ?nxt) ?nxt" using None False by simp
      moreover note "1.IH" [OF None False bfs_inv_step [OF inv] far']
      ultimately show ?thesis by simp
    qed
  qed
qed

lemma shortest_path_correct:
  assumes "has_node g s" and "has_node g t"
  shows "(reachable g s t \<longrightarrow>
            (\<exists>p. shortest_path g s t = Inr p \<and> walk_from_to g s t p \<and>
                 (\<forall>q. walk_from_to g s t q \<longrightarrow> length p \<le> length q))) \<and>
         (\<not> reachable g s t \<longrightarrow> shortest_path g s t = Inl NetworkXNoPath)"
proof -
  have w1: "within g s (Suc 0) = {s}"
    using lvl_one [of g s] lvl_pos [of g s] unfolding within_def
    by (auto simp: le_Suc_eq)
  have e1: "exact g s (Suc 0) = {s}"
    using lvl_one [of g s] lvl_pos [of g s] unfolding exact_def by (auto simp: Suc_le_eq)
  have "bfs_inv g s (Suc 0) [s] [[s]]"
    unfolding bfs_inv_def using w1 e1 by (auto simp: walk_from_to_def)
  moreover have "\<And>m. lvl g s m t \<Longrightarrow> Suc 0 \<le> m" using lvl_pos by (simp add: Suc_le_eq)
  ultimately show ?thesis
    using bfs_correct [of g s 0 "[s]" "[[s]]" t] assms by (simp add: shortest_path_def)
qed

section \<open>Loading a graph description\<close>

lemma has_node_keys: "has_node g n \<longleftrightarrow> n \<in> node_keys g"
  by (simp add: has_node_def node_keys_def map_of_eq_None_iff)

lemma node_keys_add_node: "node_keys (add_node n a g) = insert n (node_keys g)"
  by (simp add: add_node_def node_keys_def dom_update split: option.splits)

lemma distinct_add_node:
  "distinct (map fst (nx_node g)) \<Longrightarrow> distinct (map fst (nx_node (add_node n a g)))"
  by (simp add: add_node_def distinct_update split: option.splits)

lemma nbr_ids_update_Nil:
  "nbr_ids (g\<lparr>nx_adj := AList.update u [] (nx_adj g), nx_node := ns\<rparr>) \<subseteq> nbr_ids g"
proof
  fix x
  assume "x \<in> nbr_ids (g\<lparr>nx_adj := AList.update u [] (nx_adj g), nx_node := ns\<rparr>)"
  then obtain e where e: "e \<in> set (AList.update u [] (nx_adj g))" and x: "x \<in> fst ` set (snd e)"
    by (auto simp: nbr_ids_def)
  have "set (AList.update u [] al) \<subseteq> insert (u, []) (set al)"
    for al :: "(string \<times> (string \<times> string) list) list"
    by (induction al) auto
  with e have "e = (u, []) \<or> e \<in> set (nx_adj g)" by blast
  with x have "e \<in> set (nx_adj g)" by auto
  with x show "x \<in> nbr_ids g" unfolding nbr_ids_def by blast
qed

lemma nbr_ids_add_node: "nbr_ids (add_node n a g) \<subseteq> nbr_ids g"
proof (cases "map_of (nx_node g) n")
  case None
  then show ?thesis using nbr_ids_update_Nil [where g=g and u=n] by (simp add: add_node_def)
next
  case (Some old)
  then show ?thesis by (simp add: add_node_def nbr_ids_def)
qed

lemma node_keys_implicit_node: "node_keys (implicit_node u g) = insert u (node_keys g)"
proof (cases "has_node g u")
  case True
  then show ?thesis using has_node_keys [of g u] by (simp add: implicit_node_def insert_absorb)
next
  case False
  then show ?thesis by (simp add: implicit_node_def node_keys_def dom_update)
qed

lemma distinct_implicit_node:
  "distinct (map fst (nx_node g)) \<Longrightarrow> distinct (map fst (nx_node (implicit_node u g)))"
  by (simp add: implicit_node_def distinct_update)

lemma nbr_ids_implicit_node: "nbr_ids (implicit_node u g) \<subseteq> nbr_ids g"
  using nbr_ids_update_Nil [where g=g and u=u] by (simp add: implicit_node_def)

lemma nx_node_implicit_node: "has_node g u \<Longrightarrow> implicit_node u g = g"
  by (simp add: implicit_node_def)

lemma set_map_entry_update:
  "fst ` set (snd e) \<subseteq> insert v (\<Union>e' \<in> set al. fst ` set (snd e'))"
  if "e \<in> set (AList.map_entry u (AList.update v rel) al)"
  using that
proof (induction al)
  case Nil
  then show ?case by simp
next
  case (Cons a al)
  show ?case
  proof (cases "fst a = u")
    case True
    with Cons.prems have "e = (u, AList.update v rel (snd a)) \<or> e \<in> set al" by simp
    then show ?thesis
    proof
      assume "e = (u, AList.update v rel (snd a))"
      then have "fst ` set (snd e) = insert v (fst ` set (snd a))" by (simp add: dom_update)
      then show ?thesis by auto
    next
      assume "e \<in> set al"
      then show ?thesis by auto
    qed
  next
    case False
    with Cons.prems have "e = a \<or> e \<in> set (AList.map_entry u (AList.update v rel) al)" by simp
    then show ?thesis
    proof
      assume "e = a"
      then show ?thesis by auto
    next
      assume "e \<in> set (AList.map_entry u (AList.update v rel) al)"
      from Cons.IH [OF this] show ?thesis by auto
    qed
  qed
qed

lemma nbr_ids_map_entry:
  "nbr_ids (g\<lparr>nx_adj := AList.map_entry u (AList.update v rel) (nx_adj g)\<rparr>) \<subseteq> insert v (nbr_ids g)"
proof
  fix x
  assume "x \<in> nbr_ids (g\<lparr>nx_adj := AList.map_entry u (AList.update v rel) (nx_adj g)\<rparr>)"
  then obtain e where e: "e \<in> set (AList.map_entry u (AList.update v rel) (nx_adj g))"
    and x: "x \<in> fst ` set (snd e)"
    by (auto simp: nbr_ids_def)
  from set_map_entry_update [OF e] x have "x \<in> insert v (\<Union>e' \<in> set (nx_adj g). fst ` set (snd e'))"
    by blast
  then show "x \<in> insert v (nbr_ids g)" by (simp add: nbr_ids_def)
qed

lemma nx_node_add_edge: "nx_node (add_edge u v rel g) = nx_node (implicit_node v (implicit_node u g))"
  by (simp add: add_edge_def Let_def)

lemma node_keys_add_edge: "node_keys (add_edge u v rel g) = insert u (insert v (node_keys g))"
proof -
  have "node_keys (add_edge u v rel g) = node_keys (implicit_node v (implicit_node u g))"
    by (simp add: node_keys_def nx_node_add_edge)
  then show ?thesis by (auto simp: node_keys_implicit_node)
qed

lemma distinct_add_edge:
  "distinct (map fst (nx_node g)) \<Longrightarrow> distinct (map fst (nx_node (add_edge u v rel g)))"
  by (simp add: nx_node_add_edge distinct_implicit_node)

lemma nbr_ids_add_edge: "nbr_ids (add_edge u v rel g) \<subseteq> insert u (insert v (nbr_ids g))"
proof -
  let ?g2 = "implicit_node v (implicit_node u g)"
  let ?g3 = "?g2\<lparr>nx_adj := AList.map_entry u (AList.update v rel) (nx_adj ?g2)\<rparr>"
  have "add_edge u v rel g = ?g3\<lparr>nx_adj := AList.map_entry v (AList.update u rel) (nx_adj ?g3)\<rparr>"
    by (simp add: add_edge_def Let_def)
  moreover have "nbr_ids (?g3\<lparr>nx_adj := AList.map_entry v (AList.update u rel) (nx_adj ?g3)\<rparr>)
      \<subseteq> insert u (nbr_ids ?g3)"
    by (rule nbr_ids_map_entry)
  ultimately have "nbr_ids (add_edge u v rel g) \<subseteq> insert u (nbr_ids ?g3)"
    by simp
  moreover have "nbr_ids ?g3 \<subseteq> insert v (nbr_ids ?g2)" by (rule nbr_ids_map_entry)
  moreover have "nbr_ids ?g2 \<subseteq> nbr_ids g"
    using nbr_ids_implicit_node [of v "implicit_node u g"] nbr_ids_implicit_node [of u g] by blast
  ultimately show ?thesis by blast
qed

lemma load_nodes_Cons:
  "load_nodes (node # rest) k = Inr k' \<longleftrightarrow>
     (\<exists>i. node ''id'' = Some i \<and>
        load_nodes rest
          (k\<lparr> G := add_node i node (G k),
              label_to_id := (label_to_id k)((dict_get node ''label'' i) \<mapsto> i),
              id_to_label := (id_to_label k)(i \<mapsto> (dict_get node ''label'' i)) \<rparr>)
        = Inr k')"
  by (cases "node ''id''") (simp_all add: getitem_def Let_def)

lemma load_edges_Cons:
  "load_edges (edge # rest) k = Inr k' \<longleftrightarrow>
     (\<exists>u v. edge ''from'' = Some u \<and> edge ''to'' = Some v \<and>
        load_edges rest
          (k\<lparr> G := add_edge u v (dict_get edge ''relation'' ''CONNECTED_TO'') (G k) \<rparr>)
        = Inr k')"
  by (cases "edge ''from''"; cases "edge ''to''") (simp_all add: getitem_def Let_def)

lemma load_nodes_ConsE:
  assumes "load_nodes (node # rest) k = Inr k'"
  obtains i k1 where "node ''id'' = Some i"
    and "G k1 = add_node i node (G k)"
    and "label_to_id k1 = (label_to_id k)(dict_get node ''label'' i \<mapsto> i)"
    and "id_to_label k1 = (id_to_label k)(i \<mapsto> dict_get node ''label'' i)"
    and "load_nodes rest k1 = Inr k'"
proof -
  from assms obtain i where i: "node ''id'' = Some i"
    and ld: "load_nodes rest
          (k\<lparr> G := add_node i node (G k),
              label_to_id := (label_to_id k)((dict_get node ''label'' i) \<mapsto> i),
              id_to_label := (id_to_label k)(i \<mapsto> (dict_get node ''label'' i)) \<rparr>)
        = Inr k'"
    unfolding load_nodes_Cons by blast
  show thesis
    by (rule that [OF i _ _ _ ld]) simp_all
qed

lemma load_edges_ConsE:
  assumes "load_edges (edge # rest) k = Inr k'"
  obtains u v rel k1 where "edge ''from'' = Some u" and "edge ''to'' = Some v"
    and "G k1 = add_edge u v rel (G k)"
    and "label_to_id k1 = label_to_id k"
    and "id_to_label k1 = id_to_label k"
    and "load_edges rest k1 = Inr k'"
proof -
  from assms obtain u v where uv: "edge ''from'' = Some u" "edge ''to'' = Some v"
    and ld: "load_edges rest
          (k\<lparr> G := add_edge u v (dict_get edge ''relation'' ''CONNECTED_TO'') (G k) \<rparr>)
        = Inr k'"
    unfolding load_edges_Cons by blast
  show thesis
    by (rule that [OF uv _ _ _ ld]) simp_all
qed

lemma load_nodes_graph:
  "load_nodes ns k = Inr k' \<Longrightarrow>
     node_keys (G k') = node_keys (G k) \<union> set (ids_of ns) \<and>
     nbr_ids (G k') \<subseteq> nbr_ids (G k) \<and>
     (distinct (map fst (nx_node (G k))) \<longrightarrow> distinct (map fst (nx_node (G k'))))"
proof (induction ns arbitrary: k)
  case Nil
  then show ?case by (simp add: ids_of_def)
next
  case (Cons node rest)
  from Cons.prems obtain i k1 where i: "node ''id'' = Some i"
    and k1: "G k1 = add_node i node (G k)" and ld: "load_nodes rest k1 = Inr k'"
    by (rule load_nodes_ConsE)
  have ids: "ids_of (node # rest) = i # ids_of rest" by (simp add: ids_of_def i)
  from Cons.IH [OF ld] show ?case
    unfolding ids k1 using nbr_ids_add_node [of i node "G k"]
    by (auto simp: node_keys_add_node distinct_add_node)
qed

lemma load_nodes_dom:
  "load_nodes ns k = Inr k' \<Longrightarrow>
     dom (id_to_label k') = dom (id_to_label k) \<union> set (ids_of ns) \<and>
     dom (label_to_id k') = dom (label_to_id k) \<union> set (labels_of ns) \<and>
     ran (label_to_id k') \<subseteq> ran (label_to_id k) \<union> set (ids_of ns)"
proof (induction ns arbitrary: k)
  case Nil
  then show ?case by (simp add: ids_of_def labels_of_def)
next
  case (Cons node rest)
  let ?l = "\<lambda>i. dict_get node ''label'' i"
  from Cons.prems obtain i k1 where i: "node ''id'' = Some i"
    and l2i: "label_to_id k1 = (label_to_id k)(?l i \<mapsto> i)"
    and i2l: "id_to_label k1 = (id_to_label k)(i \<mapsto> ?l i)"
    and ld: "load_nodes rest k1 = Inr k'"
    by (rule load_nodes_ConsE)
  have c1: "dom (id_to_label k1) = insert i (dom (id_to_label k))" by (simp add: i2l)
  have c2: "dom (label_to_id k1) = insert (?l i) (dom (label_to_id k))" by (simp add: l2i)
  have c3: "ran (label_to_id k1) \<subseteq> insert i (ran (label_to_id k))"
    by (auto simp: l2i ran_def)
  have ids: "ids_of (node # rest) = i # ids_of rest" by (simp add: ids_of_def i)
  have ls: "labels_of (node # rest) = ?l i # labels_of rest" by (simp add: labels_of_def i)
  from Cons.IH [OF ld] c1 c2 c3 show ?case unfolding ids ls by auto
qed

lemma load_nodes_id_label:
  "load_nodes ns k = Inr k' \<Longrightarrow> distinct (ids_of ns) \<Longrightarrow>
   set (ids_of ns) \<inter> dom (id_to_label k) = {} \<Longrightarrow>
   ran (label_to_id k) \<subseteq> dom (id_to_label k) \<Longrightarrow>
   (\<forall>l n. label_to_id k l = Some n \<longrightarrow> id_to_label k n = Some l) \<Longrightarrow>
   (\<forall>l n. label_to_id k' l = Some n \<longrightarrow> id_to_label k' n = Some l)"
proof (induction ns arbitrary: k)
  case Nil
  then show ?case by simp
next
  case (Cons node rest)
  let ?l = "\<lambda>i. dict_get node ''label'' i"
  from Cons.prems(1) obtain i k1 where i: "node ''id'' = Some i"
    and l2i: "label_to_id k1 = (label_to_id k)(?l i \<mapsto> i)"
    and i2l: "id_to_label k1 = (id_to_label k)(i \<mapsto> ?l i)"
    and ld: "load_nodes rest k1 = Inr k'"
    by (rule load_nodes_ConsE)
  have ids: "ids_of (node # rest) = i # ids_of rest" by (simp add: ids_of_def i)
  have fresh: "i \<notin> dom (id_to_label k)" using Cons.prems(3) ids by auto
  have d: "distinct (ids_of rest)" using Cons.prems(2) ids by simp
  have dj: "set (ids_of rest) \<inter> dom (id_to_label k1) = {}"
    using Cons.prems(2,3) unfolding ids i2l by auto
  have rn: "ran (label_to_id k1) \<subseteq> dom (id_to_label k1)"
    using Cons.prems(4) unfolding l2i i2l by (auto simp: ran_def split: if_splits)
  have inv: "\<forall>l n. label_to_id k1 l = Some n \<longrightarrow> id_to_label k1 n = Some l"
  proof (intro allI impI)
    fix l n assume a: "label_to_id k1 l = Some n"
    show "id_to_label k1 n = Some l"
    proof (cases "l = ?l i")
      case True
      with a show ?thesis by (simp add: l2i i2l)
    next
      case False
      with a have old: "label_to_id k l = Some n" by (simp add: l2i)
      then have "n \<in> dom (id_to_label k)" using Cons.prems(4) by (auto simp: ran_def)
      with fresh have "n \<noteq> i" by auto
      with old Cons.prems(5) show ?thesis by (simp add: i2l)
    qed
  qed
  from Cons.IH [OF ld d dj rn inv] show ?case .
qed

lemma load_nodes_label_id:
  "load_nodes ns k = Inr k' \<Longrightarrow> distinct (labels_of ns) \<Longrightarrow>
   set (labels_of ns) \<inter> dom (label_to_id k) = {} \<Longrightarrow>
   ran (id_to_label k) \<subseteq> dom (label_to_id k) \<Longrightarrow>
   (\<forall>l n. id_to_label k n = Some l \<longrightarrow> label_to_id k l = Some n) \<Longrightarrow>
   (\<forall>l n. id_to_label k' n = Some l \<longrightarrow> label_to_id k' l = Some n)"
proof (induction ns arbitrary: k)
  case Nil
  then show ?case by simp
next
  case (Cons node rest)
  let ?l = "\<lambda>i. dict_get node ''label'' i"
  from Cons.prems(1) obtain i k1 where i: "node ''id'' = Some i"
    and l2i: "label_to_id k1 = (label_to_id k)(?l i \<mapsto> i)"
    and i2l: "id_to_label k1 = (id_to_label k)(i \<mapsto> ?l i)"
    and ld: "load_nodes rest k1 = Inr k'"
    by (rule load_nodes_ConsE)
  have ls: "labels_of (node # rest) = ?l i # labels_of rest" by (simp add: labels_of_def i)
  have fresh: "?l i \<notin> dom (label_to_id k)" using Cons.prems(3) ls by auto
  have d: "distinct (labels_of rest)" using Cons.prems(2) ls by simp
  have dj: "set (labels_of rest) \<inter> dom (label_to_id k1) = {}"
    using Cons.prems(2,3) unfolding ls l2i by auto
  have rn: "ran (id_to_label k1) \<subseteq> dom (label_to_id k1)"
    using Cons.prems(4) unfolding l2i i2l by (auto simp: ran_def split: if_splits)
  have inv: "\<forall>l n. id_to_label k1 n = Some l \<longrightarrow> label_to_id k1 l = Some n"
  proof (intro allI impI)
    fix l n assume a: "id_to_label k1 n = Some l"
    show "label_to_id k1 l = Some n"
    proof (cases "n = i")
      case True
      with a show ?thesis by (simp add: l2i i2l)
    next
      case False
      with a have old: "id_to_label k n = Some l" by (simp add: i2l)
      then have "l \<in> dom (label_to_id k)" using Cons.prems(4) by (auto simp: ran_def)
      with fresh have "l \<noteq> ?l i" by auto
      with old Cons.prems(5) show ?thesis by (simp add: l2i)
    qed
  qed
  from Cons.IH [OF ld d dj rn inv] show ?case .
qed

lemma load_edges_maps:
  "load_edges es k = Inr k' \<Longrightarrow>
     label_to_id k' = label_to_id k \<and> id_to_label k' = id_to_label k \<and>
     node_keys (G k') = node_keys (G k) \<union> set (endpoints_of es) \<and>
     nbr_ids (G k') \<subseteq> nbr_ids (G k) \<union> set (endpoints_of es) \<and>
     (distinct (map fst (nx_node (G k))) \<longrightarrow> distinct (map fst (nx_node (G k'))))"
proof (induction es arbitrary: k)
  case Nil
  then show ?case by (simp add: endpoints_of_def)
next
  case (Cons edge rest)
  from Cons.prems obtain u v rel k1 where uv: "edge ''from'' = Some u" "edge ''to'' = Some v"
    and g1: "G k1 = add_edge u v rel (G k)"
    and l2i: "label_to_id k1 = label_to_id k" and i2l: "id_to_label k1 = id_to_label k"
    and ld: "load_edges rest k1 = Inr k'"
    by (rule load_edges_ConsE)
  have e: "set (endpoints_of (edge # rest)) = insert u (insert v (set (endpoints_of rest)))"
    by (simp add: endpoints_of_def uv)
  from Cons.IH [OF ld] show ?case
    unfolding e g1 l2i i2l using nbr_ids_add_edge [of u v rel "G k"]
    by (auto simp: node_keys_add_edge distinct_add_edge)
qed

section \<open>Evaluation rules and facts about loaded graphs\<close>

lemmas kg_eval = load_graph_def loaded_def getitem_def dict_get_def add_node_def add_edge_def
  implicit_node_def has_node_def empty_graph_def find_path_def shortest_path_def adj_of_def
  neighbors_def get_neighbors_def get_node_type_def get_nodes_by_type_def candidates_def
  find_nearest_node_of_type_def Let_def

lemma load_graph_facts:
  assumes "load_graph d = Inr k"
  shows "dom (id_to_label k) = set (node_ids d)"
    and "dom (label_to_id k) = set (node_labels d)"
    and "ran (label_to_id k) \<subseteq> set (node_ids d)"
    and "node_keys (G k) = set (node_ids d) \<union> set (endpoints_of (edges d))"
    and "nbr_ids (G k) \<subseteq> set (endpoints_of (edges d))"
    and "distinct (map fst (nx_node (G k)))"
    and "distinct (node_ids d) \<Longrightarrow> label_to_id k l = Some n \<Longrightarrow> id_to_label k n = Some l"
    and "distinct (node_labels d) \<Longrightarrow> id_to_label k n = Some l \<Longrightarrow> label_to_id k l = Some n"
proof -
  let ?k0 = "\<lparr> G = empty_graph, label_to_id = Map.empty, id_to_label = Map.empty \<rparr>"
  from assms obtain k1 where n: "load_nodes (nodes d) ?k0 = Inr k1"
    and e: "load_edges (edges d) k1 = Inr k"
    by (auto simp: load_graph_def split: sum.splits)
  have k0: "node_keys (G ?k0) = {}" "nbr_ids (G ?k0) = {}" "distinct (map fst (nx_node (G ?k0)))"
    by (simp_all add: node_keys_def nbr_ids_def empty_graph_def)
  from load_nodes_graph [OF n] k0
  have g1: "node_keys (G k1) = set (node_ids d)" "nbr_ids (G k1) = {}"
    "distinct (map fst (nx_node (G k1)))"
    by (auto simp: node_ids_def)
  from load_nodes_dom [OF n]
  have d1: "dom (id_to_label k1) = set (node_ids d)" "dom (label_to_id k1) = set (node_labels d)"
    "ran (label_to_id k1) \<subseteq> set (node_ids d)"
    by (simp_all add: node_ids_def node_labels_def)
  from load_edges_maps [OF e]
  have m: "label_to_id k = label_to_id k1" "id_to_label k = id_to_label k1"
    and g: "node_keys (G k) = node_keys (G k1) \<union> set (endpoints_of (edges d))"
      "nbr_ids (G k) \<subseteq> nbr_ids (G k1) \<union> set (endpoints_of (edges d))"
      "distinct (map fst (nx_node (G k1))) \<longrightarrow> distinct (map fst (nx_node (G k)))"
    by simp_all
  show "dom (id_to_label k) = set (node_ids d)" using d1 m by simp
  show "dom (label_to_id k) = set (node_labels d)" using d1 m by simp
  show "ran (label_to_id k) \<subseteq> set (node_ids d)" using d1 m by simp
  show "node_keys (G k) = set (node_ids d) \<union> set (endpoints_of (edges d))" using g g1 by simp
  show "nbr_ids (G k) \<subseteq> set (endpoints_of (edges d))" using g g1 by simp
  show "distinct (map fst (nx_node (G k)))" using g g1 by simp
  show "id_to_label k n = Some l" if "distinct (node_ids d)" "label_to_id k l = Some n"
  proof -
    have "\<forall>l n. label_to_id k1 l = Some n \<longrightarrow> id_to_label k1 n = Some l"
      by (rule load_nodes_id_label [OF n]) (use that in \<open>simp_all add: node_ids_def\<close>)
    with that m show ?thesis by simp
  qed
  show "label_to_id k l = Some n" if "distinct (node_labels d)" "id_to_label k n = Some l"
  proof -
    have "\<forall>l n. id_to_label k1 n = Some l \<longrightarrow> label_to_id k1 l = Some n"
      by (rule load_nodes_label_id [OF n]) (use that in \<open>simp_all add: node_labels_def\<close>)
    with that m show ?thesis by simp
  qed
qed

lemma known_label_node:
  assumes "load_graph d = Inr k" and "label_to_id k l = Some n"
  shows "has_node (G k) n" and "n \<in> dom (id_to_label k)"
proof -
  from assms(2) have "n \<in> ran (label_to_id k)" by (auto simp: ran_def)
  then have n: "n \<in> set (node_ids d)" using load_graph_facts(3) [OF assms(1)] by blast
  then show "has_node (G k) n"
    using load_graph_facts(4) [OF assms(1)] by (simp add: has_node_keys)
  from n show "n \<in> dom (id_to_label k)" using load_graph_facts(1) [OF assms(1)] by simp
qed

section \<open>Reading labels\<close>

lemma getitems_labels:
  "set p \<subseteq> dom m \<Longrightarrow> getitems m p = Inr (map (\<lambda>n. the (m n)) p)"
  by (induction p) (auto simp: getitem_def)

lemma getitems_length: "getitems m p = Inr ps \<Longrightarrow> length ps = length p"
  by (induction p arbitrary: ps) (auto simp: getitem_def split: option.splits sum.splits)

lemma walk_in_closed:
  "walk g p \<Longrightarrow> hd p \<in> D \<Longrightarrow> nbr_ids g \<subseteq> D \<Longrightarrow> set p \<subseteq> D"
proof (induction g p rule: walk.induct)
  case (1 g)
  then show ?case by simp
next
  case (2 g v)
  then show ?case by simp
next
  case (3 g u v p)
  have "set (adj_of g u) \<subseteq> nbr_ids g"
  proof (cases "map_of (nx_adj g) u")
    case None
    then show ?thesis by (simp add: adj_of_def)
  next
    case (Some nbrs)
    then have "(u, nbrs) \<in> set (nx_adj g)" by (rule map_of_SomeD)
    then have "fst ` set nbrs \<subseteq> nbr_ids g" by (force simp: nbr_ids_def)
    with Some show ?thesis by (simp add: adj_of_def)
  qed
  with 3 show ?case by auto
qed

lemma stored_type_candidates:
  assumes "distinct (map fst (nx_node g))"
  shows "t \<in> set (candidates g T) \<longleftrightarrow> stored_type g t = Some T"
proof -
  have "t \<in> set (candidates g T) \<longleftrightarrow> (\<exists>data. (t, data) \<in> set (nx_node g) \<and> data ''type'' = Some T)"
    by (force simp: candidates_def)
  also have "\<dots> \<longleftrightarrow> (\<exists>data. map_of (nx_node g) t = Some data \<and> data ''type'' = Some T)"
    using assms by simp
  also have "\<dots> \<longleftrightarrow> stored_type g t = Some T"
    by (auto simp: stored_type_def split: option.splits)
  finally show ?thesis .
qed

lemma candidates_nodes: "t \<in> set (candidates g T) \<Longrightarrow> has_node g t"
  by (force simp: candidates_def has_node_keys node_keys_def)

lemma stored_type_node: "stored_type g t = Some T \<Longrightarrow> has_node g t"
  by (auto simp: stored_type_def has_node_def split: option.splits)

lemma shortest_path_self: "has_node g s \<Longrightarrow> shortest_path g s s = Inr [s]"
  by (simp add: shortest_path_def)

lemma walk_single: "walk_from_to g a t p \<Longrightarrow> length p \<le> Suc 0 \<Longrightarrow> p = [a] \<and> t = a"
  by (cases p) (auto simp: walk_from_to_def)

lemma hop_distance_shortest:
  assumes "walk_from_to g a b p" and "\<And>q. walk_from_to g a b q \<Longrightarrow> length p \<le> length q"
  shows "length p = hop_distance g a b + 1"
proof -
  from assms(1) have "p \<noteq> []" by (auto simp: walk_from_to_def dest: walk_nonempty)
  then have len: "length p = Suc (length p - 1)" by (cases p) auto
  have "hop_distance g a b = length p - 1"
    unfolding hop_distance_def
  proof (rule Least_equality)
    show "\<exists>q. walk_from_to g a b q \<and> length q = Suc (length p - 1)"
      using assms(1) len by auto
  next
    fix n assume "\<exists>q. walk_from_to g a b q \<and> length q = Suc n"
    then obtain q where "walk_from_to g a b q" "length q = Suc n" by blast
    with assms(2) [of q] show "length p - 1 \<le> n" by simp
  qed
  with len show ?thesis by simp
qed

section \<open>The queries of the graph store\<close>

lemma best_okI:
  "t \<in> S \<Longrightarrow> walk_from_to g s t p \<Longrightarrow>
   (\<And>t' q. t' \<in> S \<Longrightarrow> walk_from_to g s t' q \<Longrightarrow> length p \<le> length q) \<Longrightarrow>
   best_ok g s S (Some t, Some p)"
  unfolding best_ok_def by blast

lemma nearest_loop_best:
  assumes "has_node g s" and "\<forall>t\<in>set ts. has_node g t" and "best_ok g s S best"
  shows "\<exists>best'. nearest_loop g s ts best = Inr best' \<and> best_ok g s (S \<union> set ts) best'"
  using assms
proof (induction ts arbitrary: best S)
  case Nil
  then show ?case by simp
next
  case (Cons t rest)
  have ht: "has_node g t" and hr: "\<forall>t\<in>set rest. has_node g t" using Cons.prems(2) by simp_all
  have S: "S \<union> set (t # rest) = (insert t S) \<union> set rest" by simp
  note sp = shortest_path_correct [OF Cons.prems(1) ht]
  from Cons.prems(3) consider
    (none) "best = (None, None)" "\<forall>t\<in>S. \<not> reachable g s t"
    | (some) t0 p0 where "best = (Some t0, Some p0)" "t0 \<in> S" "walk_from_to g s t0 p0"
        "\<And>t' q. t' \<in> S \<Longrightarrow> walk_from_to g s t' q \<Longrightarrow> length p0 \<le> length q"
    unfolding best_ok_def by blast
  then show ?case
  proof cases
    case none
    show ?thesis
    proof (cases "reachable g s t")
      case False
      with sp have np: "shortest_path g s t = Inl NetworkXNoPath" by simp
      have "best_ok g s (insert t S) (None, None)"
        unfolding best_ok_def using none(2) False by simp
      from Cons.IH [OF Cons.prems(1) hr this] show ?thesis
        unfolding S by (simp add: none(1) np)
    next
      case True
      with sp obtain p where p: "shortest_path g s t = Inr p" "walk_from_to g s t p"
        and pmin: "\<And>q. walk_from_to g s t q \<Longrightarrow> length p \<le> length q"
        by blast
      have "best_ok g s (insert t S) (Some t, Some p)"
      proof (rule best_okI)
        show "t \<in> insert t S" by simp
        show "walk_from_to g s t p" by (rule p(2))
        fix t' q assume t': "t' \<in> insert t S" and w: "walk_from_to g s t' q"
        show "length p \<le> length q"
        proof (cases "t' = t")
          case True
          with w pmin show ?thesis by simp
        next
          case False
          with t' have "t' \<in> S" by simp
          with none(2) w show ?thesis unfolding reachable_def by blast
        qed
      qed
      from Cons.IH [OF Cons.prems(1) hr this] show ?thesis
        unfolding S by (simp add: none(1) p(1))
    qed
  next
    case some
    show ?thesis
    proof (cases "reachable g s t")
      case False
      with sp have np: "shortest_path g s t = Inl NetworkXNoPath" by simp
      have "best_ok g s (insert t S) (Some t0, Some p0)"
      proof (rule best_okI)
        show "t0 \<in> insert t S" using some(2) by simp
        show "walk_from_to g s t0 p0" by (rule some(3))
        fix t' q assume t': "t' \<in> insert t S" and w: "walk_from_to g s t' q"
        from w False have "t' \<noteq> t" unfolding reachable_def by blast
        with t' have "t' \<in> S" by simp
        then show "length p0 \<le> length q" using w by (rule some(4))
      qed
      from Cons.IH [OF Cons.prems(1) hr this] show ?thesis
        unfolding S by (simp add: some(1) np)
    next
      case True
      with sp obtain p where p: "shortest_path g s t = Inr p" "walk_from_to g s t p"
        and pmin: "\<And>q. walk_from_to g s t q \<Longrightarrow> length p \<le> length q"
        by blast
      show ?thesis
      proof (cases "length p < length p0")
        case shorter: True
        have "best_ok g s (insert t S) (Some t, Some p)"
        proof (rule best_okI)
          show "t \<in> insert t S" by simp
          show "walk_from_to g s t p" by (rule p(2))
          fix t' q assume t': "t' \<in> insert t S" and w: "walk_from_to g s t' q"
          show "length p \<le> length q"
          proof (cases "t' = t")
            case True
            with w pmin show ?thesis by simp
          next
            case False
            with t' have "t' \<in> S" by simp
            then have "length p0 \<le> length q" using w by (rule some(4))
            with shorter show ?thesis by simp
          qed
        qed
        from Cons.IH [OF Cons.prems(1) hr this] show ?thesis
          unfolding S using shorter by (simp add: some(1) p(1))
      next
        case longer: False
        have "best_ok g s (insert t S) (Some t0, Some p0)"
        proof (rule best_okI)
          show "t0 \<in> insert t S" using some(2) by simp
          show "walk_from_to g s t0 p0" by (rule some(3))
          fix t' q assume t': "t' \<in> insert t S" and w: "walk_from_to g s t' q"
          show "length p0 \<le> length q"
          proof (cases "t' = t")
            case True
            with w pmin have "length p \<le> length q" by simp
            with longer show ?thesis by simp
          next
            case False
            with t' have "t' \<in> S" by simp
            then show ?thesis using w by (rule some(4))
          qed
        qed
        from Cons.IH [OF Cons.prems(1) hr this] show ?thesis
          unfolding S using longer by (simp add: some(1) p(1))
      qed
    qed
  qed
qed

lemma nodes_by_type_loop_map:
  "nodes_by_type_loop k T ns acc =
     acc @ map (\<lambda>n. dict_get (id_to_label k) n n)
             (map fst (filter (\<lambda>(node_id, data). data ''type'' = Some T) ns))"
  by (induction k T ns acc rule: nodes_by_type_loop.induct) simp_all

text \<open>
  Claim C4. For every state of the graph store, and so for every loaded graph, and
  every label \<open>L\<close> that is not a key of \<open>label_to_id\<close>: \<open>get_neighbors(L)\<close> returns the
  empty list, \<open>get_node_type(L)\<close> returns \<open>None\<close>, and \<open>find_path(L, X)\<close> returns the empty
  list for every label \<open>X\<close>. Each of the three returns a value: none raises.
\<close>

theorem unknown_label_queries:
  "label_to_id k L = None \<Longrightarrow>
     get_neighbors k L = Inr [] \<and> get_node_type k L = Inr None \<and> find_path k L X = Inr []"
  by (simp add: get_neighbors_def get_node_type_def find_path_def)

theorem unknown_label_queries_witness:
  "load_graph example_desc = Inr (loaded example_desc) \<and>
   label_to_id (loaded example_desc) ''Nowhere'' = None \<and>
   get_neighbors (loaded example_desc) ''Nowhere'' = Inr [] \<and>
   get_node_type (loaded example_desc) ''Nowhere'' = Inr None \<and>
   find_path (loaded example_desc) ''Nowhere'' ''Central Hospital'' = Inr []"
proof -
  have ld: "load_graph example_desc = Inr (loaded example_desc)"
    by (simp add: kg_eval example_desc_def)
  have h: "label_to_id (loaded example_desc) ''Nowhere'' = None"
    by (simp add: kg_eval example_desc_def)
  from unknown_label_queries [OF h, of "''Central Hospital''"] ld h show ?thesis by simp
qed

text \<open>
  Claim C8. The description \<open>dangling_desc\<close> has an edge whose endpoint \<open>x\<close> is the id
  of no node record. Loading it succeeds, because \<open>add_edge\<close> creates the missing
  node: after the load \<open>x\<close> is a node of the graph, with the listed endpoint \<open>a\<close> as
  its neighbour and itself the neighbour of \<open>a\<close>, and it has no entry in
  \<open>id_to_label\<close>. \<open>get_neighbors\<close> on the label \<open>A\<close> of the listed endpoint then
  raises \<open>KeyError\<close> for that created node \<open>x\<close>.
\<close>

theorem dangling_edge_neighbors_keyerror:
  "''x'' \<in> set (endpoints_of (edges dangling_desc)) \<and> ''x'' \<notin> set (node_ids dangling_desc) \<and>
   load_graph dangling_desc = Inr (loaded dangling_desc) \<and>
   has_node (G (loaded dangling_desc)) ''x'' \<and>
   neighbors (G (loaded dangling_desc)) ''x'' = Inr [''a''] \<and>
   neighbors (G (loaded dangling_desc)) ''a'' = Inr [''x''] \<and>
   id_to_label (loaded dangling_desc) ''x'' = None \<and>
   label_to_id (loaded dangling_desc) ''A'' = Some ''a'' \<and>
   get_neighbors (loaded dangling_desc) ''A'' = Inl (KeyError ''x'')"
  by (simp add: kg_eval dangling_desc_def endpoints_of_def node_ids_def ids_of_def)

theorem dangling_edge_neighbors_keyerror_witness:
  "has_node (G (loaded dangling_desc)) ''x'' \<and>
   (\<exists>e. get_neighbors (loaded dangling_desc) ''A'' = Inl e)"
  using dangling_edge_neighbors_keyerror by blast

text \<open>
  Claim C10. For every state of the graph store, and so for every loaded graph, and
  every type \<open>T\<close>, \<open>get_nodes_by_type(T)\<close> returns a list (it never raises): for each
  node of type \<open>T\<close>, in the order of the node dictionary, its label, and the node id
  itself where \<open>id_to_label\<close> has no entry for the node. \<open>get_neighbors\<close> in the same
  situation, a neighbour without entry in \<open>id_to_label\<close>, raises \<open>KeyError\<close>.
\<close>

theorem get_nodes_by_type_never_raises:
  "get_nodes_by_type k T =
     Inr (map (\<lambda>n. case id_to_label k n of None \<Rightarrow> n | Some l \<Rightarrow> l) (candidates (G k) T)) \<and>
   (label_to_id k L = Some u \<and> neighbors (G k) u = Inr ns \<and> n \<in> set ns \<and> id_to_label k n = None
      \<longrightarrow> (\<exists>m. get_neighbors k L = Inl (KeyError m)))"
proof
  show "get_nodes_by_type k T =
     Inr (map (\<lambda>n. case id_to_label k n of None \<Rightarrow> n | Some l \<Rightarrow> l) (candidates (G k) T))"
    by (simp add: get_nodes_by_type_def nodes_by_type_loop_map candidates_def dict_get_def)
next
  have "\<exists>m. getitems d ns = Inl (KeyError m)" if "n \<in> set ns" "d n = None"
    for d :: "string \<rightharpoonup> string" and ns n
    using that by (induction ns) (auto simp: getitem_def split: option.splits sum.splits)
  then have "\<exists>m. getitems (id_to_label k) ns = Inl (KeyError m)"
    if "n \<in> set ns" "id_to_label k n = None"
    using that by blast
  then show "label_to_id k L = Some u \<and> neighbors (G k) u = Inr ns \<and> n \<in> set ns \<and> id_to_label k n = None
      \<longrightarrow> (\<exists>m. get_neighbors k L = Inl (KeyError m))"
    by (simp add: get_neighbors_def)
qed

theorem get_nodes_by_type_never_raises_witness:
  "get_nodes_by_type unlabelled_kg ''hospital'' = Inr [''h1''] \<and>
   label_to_id unlabelled_kg ''A'' = Some ''a'' \<and> neighbors (G unlabelled_kg) ''a'' = Inr [''h1''] \<and>
   id_to_label unlabelled_kg ''h1'' = None \<and>
   (\<exists>m. get_neighbors unlabelled_kg ''A'' = Inl (KeyError m)) \<and>
   get_nodes_by_type (loaded dangling_desc) ''intersection'' = Inr [''A''] \<and>
   neighbors (G (loaded dangling_desc)) ''a'' = Inr [''x''] \<and>
   id_to_label (loaded dangling_desc) ''x'' = None \<and>
   (\<exists>m. get_neighbors (loaded dangling_desc) ''A'' = Inl (KeyError m))"
proof -
  have h: "label_to_id unlabelled_kg ''A'' = Some ''a'' \<and> neighbors (G unlabelled_kg) ''a'' = Inr [''h1''] \<and>
      ''h1'' \<in> set [''h1''] \<and> id_to_label unlabelled_kg ''h1'' = None"
    by (simp add: unlabelled_kg_def neighbors_def)
  have c: "candidates (G unlabelled_kg) ''hospital'' = [''h1'']"
    by (simp add: unlabelled_kg_def candidates_def)
  from get_nodes_by_type_never_raises [of unlabelled_kg "''hospital''" "''A''" "''a''" "[''h1'']" "''h1''"] h c
  have u: "get_nodes_by_type unlabelled_kg ''hospital'' = Inr [''h1''] \<and>
      (\<exists>m. get_neighbors unlabelled_kg ''A'' = Inl (KeyError m))"
    by simp
  have h': "label_to_id (loaded dangling_desc) ''A'' = Some ''a'' \<and>
      neighbors (G (loaded dangling_desc)) ''a'' = Inr [''x''] \<and>
      ''x'' \<in> set [''x''] \<and> id_to_label (loaded dangling_desc) ''x'' = None"
    by (simp add: kg_eval dangling_desc_def)
  have c': "candidates (G (loaded dangling_desc)) ''intersection'' = [''a'']"
    by (simp add: kg_eval dangling_desc_def)
  have l': "id_to_label (loaded dangling_desc) ''a'' = Some ''A''"
    by (simp add: kg_eval dangling_desc_def)
  from get_nodes_by_type_never_raises
    [of "loaded dangling_desc" "''intersection''" "''A''" "''a''" "[''x'']" "''x''"] h' c' l'
  have d: "get_nodes_by_type (loaded dangling_desc) ''intersection'' = Inr [''A''] \<and>
      (\<exists>m. get_neighbors (loaded dangling_desc) ''A'' = Inl (KeyError m))"
    by simp
  from u d h h' show ?thesis by simp
qed

text \<open>
  Claim C5 fails as stated. In \<open>dup_id_desc\<close> two node records share the id \<open>n1\<close>, with
  the labels \<open>A\<close> and \<open>B\<close>. Both labels are known after the load, \<open>id_to_label\<close> keeps the
  later label only, and \<open>find_path(A, A)\<close> returns \<open>[B]\<close>.
\<close>

theorem find_path_self_counterexample:
  "load_graph dup_id_desc = Inr (loaded dup_id_desc) \<and>
   label_to_id (loaded dup_id_desc) ''A'' = Some ''n1'' \<and>
   find_path (loaded dup_id_desc) ''A'' ''A'' = Inr [''B'']"
  by (simp add: kg_eval dup_id_desc_def)

text \<open>
  Claim C5, amended. For every loaded graph and every known label \<open>A\<close>, \<open>find_path(A, A)\<close>
  returns the one-element list that holds the label which \<open>id_to_label\<close> records for
  the node of \<open>A\<close>; this label is \<open>A\<close> itself when the node ids of the description
  are pairwise distinct.
\<close>

theorem find_path_self:
  assumes "load_graph d = Inr k" and "label_to_id k A = Some a"
  shows "\<exists>L. id_to_label k a = Some L \<and> find_path k A A = Inr [L] \<and>
           (distinct (node_ids d) \<longrightarrow> L = A)"
proof -
  from known_label_node [OF assms] obtain L where hn: "has_node (G k) a"
    and L: "id_to_label k a = Some L" by auto
  have "find_path k A A = Inr [L]"
    using assms(2) L by (simp add: find_path_def shortest_path_self [OF hn] getitem_def)
  moreover have "L = A" if "distinct (node_ids d)"
    using load_graph_facts(7) [OF assms(1) that assms(2)] L by simp
  ultimately show ?thesis using L by blast
qed

theorem find_path_self_witness:
  "load_graph example_desc = Inr (loaded example_desc) \<and>
   label_to_id (loaded example_desc) ''Intersection 4'' = Some ''INT_1'' \<and>
   distinct (node_ids example_desc) \<and>
   find_path (loaded example_desc) ''Intersection 4'' ''Intersection 4'' = Inr [''Intersection 4'']"
proof -
  have ld: "load_graph example_desc = Inr (loaded example_desc)"
    by (simp add: kg_eval example_desc_def)
  have h: "label_to_id (loaded example_desc) ''Intersection 4'' = Some ''INT_1''"
    by (simp add: kg_eval example_desc_def)
  have dist: "distinct (node_ids example_desc)"
    by (simp add: example_desc_def node_ids_def ids_of_def)
  from find_path_self [OF ld h] dist obtain L where
    "find_path (loaded example_desc) ''Intersection 4'' ''Intersection 4'' = Inr [L]" "L = ''Intersection 4''"
    by blast
  with dist ld h show ?thesis by simp
qed

text \<open>
  Claim C6. After the load of a well-formed graph description (node ids pairwise
  distinct, labels pairwise distinct, every edge between listed node ids),
  \<open>label_to_id\<close> and \<open>id_to_label\<close> are inverse to each other: \<open>label_to_id\<close> maps a label
  to an id exactly when \<open>id_to_label\<close> maps this id to this label. No entry is
  orphaned: the ids with a label are exactly the nodes of the graph, every node
  has exactly one label and every label belongs to exactly one node.
\<close>

theorem load_maps_inverse:
  assumes "load_graph d = Inr k" and "well_formed d"
  shows "(\<forall>l n. label_to_id k l = Some n \<longleftrightarrow> id_to_label k n = Some l) \<and>
         dom (id_to_label k) = node_keys (G k) \<and>
         (\<forall>n\<in>node_keys (G k). \<exists>!l. label_to_id k l = Some n) \<and>
         (\<forall>l\<in>dom (label_to_id k). \<exists>!n. n \<in> node_keys (G k) \<and> id_to_label k n = Some l)"
proof -
  from assms(2) have di: "distinct (node_ids d)" and dl: "distinct (node_labels d)"
    and ec: "set (endpoints_of (edges d)) \<subseteq> set (node_ids d)"
    by (simp_all add: well_formed_def edges_closed_def)
  have inv: "label_to_id k l = Some n \<longleftrightarrow> id_to_label k n = Some l" for l n
    using load_graph_facts(7) [OF assms(1) di] load_graph_facts(8) [OF assms(1) dl] by blast
  have keys: "dom (id_to_label k) = node_keys (G k)"
    using load_graph_facts(1,4) [OF assms(1)] ec by auto
  have one_label: "\<exists>!l. label_to_id k l = Some n" if "n \<in> node_keys (G k)" for n
  proof -
    from that keys obtain l where "id_to_label k n = Some l" by auto
    then have "label_to_id k l = Some n" using inv by simp
    moreover have "l' = l" if "label_to_id k l' = Some n" for l'
    proof -
      from that have "id_to_label k n = Some l'" by (simp add: inv)
      with \<open>id_to_label k n = Some l\<close> show ?thesis by simp
    qed
    ultimately show ?thesis by blast
  qed
  have one_id: "\<exists>!n. n \<in> node_keys (G k) \<and> id_to_label k n = Some l" if "l \<in> dom (label_to_id k)" for l
  proof -
    from that obtain n where n: "label_to_id k l = Some n" by auto
    then have "id_to_label k n = Some l" using inv by simp
    moreover from this have "n \<in> node_keys (G k)" using keys by auto
    moreover have "n' = n" if "id_to_label k n' = Some l" for n'
    proof -
      from that have "label_to_id k l = Some n'" by (simp add: inv)
      with n show ?thesis by simp
    qed
    ultimately show ?thesis by blast
  qed
  show ?thesis
  proof (intro conjI allI ballI)
    show "label_to_id k l = Some n \<longleftrightarrow> id_to_label k n = Some l" for l n by (rule inv)
    show "dom (id_to_label k) = node_keys (G k)" by (rule keys)
    show "\<exists>!l. label_to_id k l = Some n" if "n \<in> node_keys (G k)" for n
      using that by (rule one_label)
    show "\<exists>!n. n \<in> node_keys (G k) \<and> id_to_label k n = Some l" if "l \<in> dom (label_to_id k)" for l
      using that by (rule one_id)
  qed
qed

theorem load_maps_inverse_witness:
  "load_graph example_desc = Inr (loaded example_desc) \<and> well_formed example_desc \<and>
   label_to_id (loaded example_desc) ''Central Hospital'' = Some ''HOSP_1'' \<and>
   id_to_label (loaded example_desc) ''HOSP_1'' = Some ''Central Hospital''"
proof -
  have ld: "load_graph example_desc = Inr (loaded example_desc)"
    by (simp add: kg_eval example_desc_def)
  have wf: "well_formed example_desc"
    by (simp add: example_desc_def well_formed_def edges_closed_def node_ids_def node_labels_def
        ids_of_def labels_of_def endpoints_of_def dict_get_def)
  have h: "label_to_id (loaded example_desc) ''Central Hospital'' = Some ''HOSP_1''"
    by (simp add: kg_eval example_desc_def)
  from load_maps_inverse [OF ld wf]
  have "\<forall>l n. label_to_id (loaded example_desc) l = Some n \<longleftrightarrow>
           id_to_label (loaded example_desc) n = Some l"
    by (rule conjunct1)
  with h have "id_to_label (loaded example_desc) ''HOSP_1'' = Some ''Central Hospital''" by simp
  with h ld wf show ?thesis by simp
qed

section \<open>Shortest paths and nearest nodes by label\<close>

lemma loaded_labels_closed:
  assumes "load_graph d = Inr k" and "edges_closed d"
    and "label_to_id k A = Some a" and "walk_from_to (G k) a t p"
  shows "set p \<subseteq> dom (id_to_label k)" and "t \<in> dom (id_to_label k)"
proof -
  have n: "nbr_ids (G k) \<subseteq> dom (id_to_label k)"
    using load_graph_facts(1,5) [OF assms(1)] assms(2) by (auto simp: edges_closed_def)
  have h: "hd p \<in> dom (id_to_label k)"
    using known_label_node(2) [OF assms(1,3)] assms(4) by (simp add: walk_from_to_def)
  have w: "walk (G k) p" using assms(4) by (simp add: walk_from_to_def)
  show p: "set p \<subseteq> dom (id_to_label k)" by (rule walk_in_closed [OF w h n])
  from w have "p \<noteq> []" by (rule walk_nonempty)
  then have "last p \<in> set p" by simp
  with p assms(4) show "t \<in> dom (id_to_label k)" by (auto simp: walk_from_to_def)
qed

lemma nearest_loop_candidates:
  assumes "load_graph d = Inr k" and "label_to_id k A = Some a"
  shows "\<exists>best. nearest_loop (G k) a (candidates (G k) T) (None, None) = Inr best \<and>
           best_ok (G k) a {t. stored_type (G k) t = Some T} best"
proof -
  have dk: "distinct (map fst (nx_node (G k)))" by (rule load_graph_facts(6) [OF assms(1)])
  have cs: "set (candidates (G k) T) = {t. stored_type (G k) t = Some T}"
    using stored_type_candidates [OF dk] by blast
  have "best_ok (G k) a {} (None, None)" by (simp add: best_ok_def)
  moreover have "\<forall>t\<in>set (candidates (G k) T). has_node (G k) t"
    using candidates_nodes by blast
  ultimately have "\<exists>best. nearest_loop (G k) a (candidates (G k) T) (None, None) = Inr best \<and>
      best_ok (G k) a ({} \<union> set (candidates (G k) T)) best"
    using known_label_node(1) [OF assms] by (intro nearest_loop_best)
  then show ?thesis by (simp add: cs)
qed

text \<open>
  Claim C9 fails as stated. In \<open>dup_id_desc\<close> two node records share the id \<open>n1\<close>, with
  the labels \<open>A\<close> and \<open>B\<close> and the type \<open>hospital\<close>. The label \<open>A\<close> is known and the type
  stored for its node is \<open>hospital\<close>, yet \<open>find_nearest_node_of_type(A, hospital)\<close>
  returns \<open>(B, [B])\<close> and not \<open>(A, [A])\<close>.
\<close>

theorem nearest_own_type_counterexample:
  "load_graph dup_id_desc = Inr (loaded dup_id_desc) \<and>
   label_to_id (loaded dup_id_desc) ''A'' = Some ''n1'' \<and>
   get_node_type (loaded dup_id_desc) ''A'' = Inr (Some ''hospital'') \<and>
   find_nearest_node_of_type (loaded dup_id_desc) ''A'' ''hospital'' = Inr (Some (''B'', [''B'']))"
  by (simp add: kg_eval dup_id_desc_def)

text \<open>
  Claim C9, amended. For every loaded graph and every known label \<open>A\<close> whose node has
  the stored type \<open>T\<close>, \<open>find_nearest_node_of_type(A, T)\<close> returns the pair \<open>(L, [L])\<close>,
  where \<open>L\<close> is the label that \<open>id_to_label\<close> records for the node of \<open>A\<close>: the source node
  is itself a candidate, at hop-distance zero, and wins over every other node of
  the type. \<open>L\<close> is \<open>A\<close> itself when the node ids of the description are pairwise
  distinct.
\<close>

theorem nearest_own_type:
  assumes "load_graph d = Inr k" and "label_to_id k A = Some a"
    and "get_node_type k A = Inr (Some T)"
  shows "\<exists>L. id_to_label k a = Some L \<and>
           find_nearest_node_of_type k A T = Inr (Some (L, [L])) \<and>
           (distinct (node_ids d) \<longrightarrow> L = A)"
proof -
  from known_label_node(2) [OF assms(1,2)] obtain L where L: "id_to_label k a = Some L" by auto
  have st: "stored_type (G k) a = Some T"
    using assms(2,3)
    by (auto simp: get_node_type_def getitem_def stored_type_def split: option.splits)
  have dk: "distinct (map fst (nx_node (G k)))" by (rule load_graph_facts(6) [OF assms(1)])
  have ne: "candidates (G k) T \<noteq> []"
    using stored_type_candidates [OF dk, of a T] st by auto
  from nearest_loop_candidates [OF assms(1,2)] obtain best where
    nl: "nearest_loop (G k) a (candidates (G k) T) (None, None) = Inr best"
    and ok: "best_ok (G k) a {t. stored_type (G k) t = Some T} best" by blast
  have self: "walk_from_to (G k) a a [a]" by (simp add: walk_from_to_def)
  then have "reachable (G k) a a" unfolding reachable_def by blast
  with ok st obtain t p where best: "best = (Some t, Some p)" and w: "walk_from_to (G k) a t p"
    and mn: "\<forall>t'\<in>{t. stored_type (G k) t = Some T}. \<forall>q. walk_from_to (G k) a t' q \<longrightarrow> length p \<le> length q"
    unfolding best_ok_def by blast
  from mn st self have "length p \<le> length [a]" by blast
  with w have "p = [a] \<and> t = a" by (intro walk_single) simp_all
  with best nl have "nearest_loop (G k) a (candidates (G k) T) (None, None) = Inr (Some a, Some [a])"
    by simp
  then have "find_nearest_node_of_type k A T = Inr (Some (L, [L]))"
    using assms(2) ne L by (simp add: find_nearest_node_of_type_def getitem_def)
  moreover have "L = A" if "distinct (node_ids d)"
    using load_graph_facts(7) [OF assms(1) that assms(2)] L by simp
  ultimately show ?thesis using L by blast
qed

theorem nearest_own_type_witness:
  "load_graph example_desc = Inr (loaded example_desc) \<and>
   label_to_id (loaded example_desc) ''Central Hospital'' = Some ''HOSP_1'' \<and>
   get_node_type (loaded example_desc) ''Central Hospital'' = Inr (Some ''hospital'') \<and>
   distinct (node_ids example_desc) \<and>
   find_nearest_node_of_type (loaded example_desc) ''Central Hospital'' ''hospital''
     = Inr (Some (''Central Hospital'', [''Central Hospital'']))"
proof -
  have ld: "load_graph example_desc = Inr (loaded example_desc)"
    by (simp add: kg_eval example_desc_def)
  have h: "label_to_id (loaded example_desc) ''Central Hospital'' = Some ''HOSP_1''"
    by (simp add: kg_eval example_desc_def)
  have ty: "get_node_type (loaded example_desc) ''Central Hospital'' = Inr (Some ''hospital'')"
    by (simp add: kg_eval example_desc_def)
  have dist: "distinct (node_ids example_desc)"
    by (simp add: example_desc_def node_ids_def ids_of_def)
  from nearest_own_type [OF ld h ty] dist obtain L where
    "find_nearest_node_of_type (loaded example_desc) ''Central Hospital'' ''hospital'' = Inr (Some (L, [L]))"
    "L = ''Central Hospital''"
    by blast
  with ld h ty dist show ?thesis by simp
qed

text \<open>
  Claim C3 fails as stated. In \<open>detour_desc\<close> the known labels \<open>A\<close> and \<open>H\<close> are connected
  only through the id \<open>x\<close>, which no node record has: a path exists, and \<open>find_path(A, H)\<close>
  raises \<open>KeyError\<close> for \<open>x\<close> instead of returning a list. In \<open>dup_id_desc\<close>, where two
  node records share an id, \<open>find_path(A, C)\<close> returns \<open>[B, C]\<close>, whose first element is
  not \<open>A\<close>.
\<close>

theorem find_path_shortest_counterexample:
  "load_graph detour_desc = Inr (loaded detour_desc) \<and>
   label_to_id (loaded detour_desc) ''A'' = Some ''a'' \<and>
   label_to_id (loaded detour_desc) ''H'' = Some ''h'' \<and>
   walk_from_to (G (loaded detour_desc)) ''a'' ''h'' [''a'', ''x'', ''h''] \<and>
   find_path (loaded detour_desc) ''A'' ''H'' = Inl (KeyError ''x'') \<and>
   load_graph dup_id_desc = Inr (loaded dup_id_desc) \<and>
   label_to_id (loaded dup_id_desc) ''A'' = Some ''n1'' \<and>
   label_to_id (loaded dup_id_desc) ''C'' = Some ''n2'' \<and>
   find_path (loaded dup_id_desc) ''A'' ''C'' = Inr [''B'', ''C'']"
  by (simp add: kg_eval detour_desc_def dup_id_desc_def walk_from_to_def)

text \<open>
  Claim C3, amended. For every graph loaded from a description in which every
  edge endpoint is the id of a listed node, and every pair of known labels \<open>A\<close> and
  \<open>B\<close> with a path between their nodes, \<open>find_path(A, B)\<close> returns a list whose first
  and last elements are the labels that \<open>id_to_label\<close> records for the nodes of \<open>A\<close> and
  of \<open>B\<close> (these are \<open>A\<close> and \<open>B\<close> themselves when the node ids are pairwise distinct),
  and whose length is the unweighted hop-distance between the two nodes plus one.
\<close>

theorem find_path_shortest:
  assumes "load_graph d = Inr k" and "edges_closed d"
    and "label_to_id k A = Some a" and "label_to_id k B = Some b"
    and "reachable (G k) a b"
  shows "\<exists>ps LA LB. find_path k A B = Inr ps \<and>
           id_to_label k a = Some LA \<and> id_to_label k b = Some LB \<and>
           hd ps = LA \<and> last ps = LB \<and>
           length ps = hop_distance (G k) a b + 1 \<and>
           (distinct (node_ids d) \<longrightarrow> LA = A \<and> LB = B)"
proof -
  from known_label_node [OF assms(1,3)] obtain LA where ha: "has_node (G k) a"
    and LA: "id_to_label k a = Some LA" by auto
  from known_label_node [OF assms(1,4)] obtain LB where hb: "has_node (G k) b"
    and LB: "id_to_label k b = Some LB" by auto
  from shortest_path_correct [OF ha hb] assms(5) obtain p where
    sp: "shortest_path (G k) a b = Inr p" and w: "walk_from_to (G k) a b p"
    and mn: "\<And>q. walk_from_to (G k) a b q \<Longrightarrow> length p \<le> length q" by blast
  let ?ps = "map (\<lambda>n. the (id_to_label k n)) p"
  have "set p \<subseteq> dom (id_to_label k)"
    by (rule loaded_labels_closed(1) [OF assms(1,2,3) w])
  then have "getitems (id_to_label k) p = Inr ?ps" by (rule getitems_labels)
  then have fp: "find_path k A B = Inr ?ps"
    using assms(3,4) sp by (simp add: find_path_def)
  from w have ne: "p \<noteq> []" and hd: "hd p = a" and lst: "last p = b"
    by (auto simp: walk_from_to_def dest: walk_nonempty)
  have "hd ?ps = LA" using ne hd LA by (simp add: hd_map)
  moreover have "last ?ps = LB" using ne lst LB by (simp add: last_map)
  moreover have "length ?ps = hop_distance (G k) a b + 1"
    using hop_distance_shortest [OF w mn] by simp
  moreover have "LA = A \<and> LB = B" if "distinct (node_ids d)"
    using load_graph_facts(7) [OF assms(1) that assms(3)]
      load_graph_facts(7) [OF assms(1) that assms(4)] LA LB by simp
  ultimately show ?thesis using fp LA LB by blast
qed

theorem find_path_shortest_witness:
  "load_graph example_desc = Inr (loaded example_desc) \<and> edges_closed example_desc \<and>
   distinct (node_ids example_desc) \<and>
   label_to_id (loaded example_desc) ''Intersection 4'' = Some ''INT_1'' \<and>
   label_to_id (loaded example_desc) ''Central Hospital'' = Some ''HOSP_1'' \<and>
   reachable (G (loaded example_desc)) ''INT_1'' ''HOSP_1'' \<and>
   hop_distance (G (loaded example_desc)) ''INT_1'' ''HOSP_1'' = 1 \<and>
   find_path (loaded example_desc) ''Intersection 4'' ''Central Hospital''
     = Inr [''Intersection 4'', ''Central Hospital'']"
proof -
  have ld: "load_graph example_desc = Inr (loaded example_desc)"
    by (simp add: kg_eval example_desc_def)
  have ec: "edges_closed example_desc"
    by (simp add: example_desc_def edges_closed_def node_ids_def ids_of_def endpoints_of_def)
  have dist: "distinct (node_ids example_desc)"
    by (simp add: example_desc_def node_ids_def ids_of_def)
  have a: "label_to_id (loaded example_desc) ''Intersection 4'' = Some ''INT_1''"
    by (simp add: kg_eval example_desc_def)
  have b: "label_to_id (loaded example_desc) ''Central Hospital'' = Some ''HOSP_1''"
    by (simp add: kg_eval example_desc_def)
  have "walk_from_to (G (loaded example_desc)) ''INT_1'' ''HOSP_1'' [''INT_1'', ''HOSP_1'']"
    by (simp add: kg_eval example_desc_def walk_from_to_def)
  then have r: "reachable (G (loaded example_desc)) ''INT_1'' ''HOSP_1''"
    unfolding reachable_def by blast
  have fp: "find_path (loaded example_desc) ''Intersection 4'' ''Central Hospital''
     = Inr [''Intersection 4'', ''Central Hospital'']"
    by (simp add: kg_eval example_desc_def)
  from find_path_shortest [OF ld ec a b r] fp
  have "hop_distance (G (loaded example_desc)) ''INT_1'' ''HOSP_1'' = 1" by auto
  with ld ec dist a b r fp show ?thesis by simp
qed

text \<open>
  Claim C1 fails as stated. In \<open>detour_desc\<close> the label \<open>A\<close> is known, the node \<open>h\<close> has
  the type \<open>hospital\<close> and is reachable from the node of \<open>A\<close>, through the id \<open>x\<close> that no
  node record has. \<open>find_nearest_node_of_type(A, hospital)\<close> returns neither \<open>None\<close> nor a
  pair: it raises \<open>KeyError\<close> for \<open>x\<close>.
\<close>

theorem nearest_of_type_counterexample:
  "load_graph detour_desc = Inr (loaded detour_desc) \<and>
   label_to_id (loaded detour_desc) ''A'' = Some ''a'' \<and>
   get_node_type (loaded detour_desc) ''H'' = Inr (Some ''hospital'') \<and>
   walk_from_to (G (loaded detour_desc)) ''a'' ''h'' [''a'', ''x'', ''h''] \<and>
   find_nearest_node_of_type (loaded detour_desc) ''A'' ''hospital'' = Inl (KeyError ''x'')"
  by (simp add: kg_eval detour_desc_def walk_from_to_def)

text \<open>
  Claim C1, amended. For every graph loaded from a description in which every
  edge endpoint is the id of a listed node, every source label \<open>A\<close> and every type
  \<open>T\<close>: \<open>find_nearest_node_of_type(A, T)\<close> returns \<open>None\<close> exactly when \<open>A\<close> is unknown, or no
  node has the stored type \<open>T\<close>, or no node of type \<open>T\<close> is reachable from the node of
  \<open>A\<close>. Otherwise it returns a pair: the label of a node whose stored type is \<open>T\<close>, and
  the labels along a walk from the node of \<open>A\<close> to that node, which has no more
  nodes than any walk from the node of \<open>A\<close> to any node of type \<open>T\<close>.
\<close>

theorem nearest_of_type:
  assumes "load_graph d = Inr k" and "edges_closed d"
  shows "(find_nearest_node_of_type k A T = Inr None \<longleftrightarrow>
            label_to_id k A = None \<or>
            (\<forall>t. stored_type (G k) t \<noteq> Some T) \<or>
            (\<forall>a t. label_to_id k A = Some a \<and> stored_type (G k) t = Some T
                     \<longrightarrow> \<not> reachable (G k) a t)) \<and>
         (find_nearest_node_of_type k A T \<noteq> Inr None \<longrightarrow>
            (\<exists>a t p L ps. label_to_id k A = Some a \<and>
               find_nearest_node_of_type k A T = Inr (Some (L, ps)) \<and>
               stored_type (G k) t = Some T \<and> id_to_label k t = Some L \<and>
               walk_from_to (G k) a t p \<and> getitems (id_to_label k) p = Inr ps \<and>
               length ps = length p \<and>
               (\<forall>t' q. stored_type (G k) t' = Some T \<and> walk_from_to (G k) a t' q
                         \<longrightarrow> length ps \<le> length q)))"
proof (cases "label_to_id k A")
  case None
  then have "find_nearest_node_of_type k A T = Inr None"
    by (simp add: find_nearest_node_of_type_def)
  with None show ?thesis by simp
next
  case (Some a)
  have dk: "distinct (map fst (nx_node (G k)))" by (rule load_graph_facts(6) [OF assms(1)])
  have cs: "set (candidates (G k) T) = {t. stored_type (G k) t = Some T}"
    using stored_type_candidates [OF dk] by blast
  from nearest_loop_candidates [OF assms(1) Some] obtain best where
    nl: "nearest_loop (G k) a (candidates (G k) T) (None, None) = Inr best"
    and ok: "best_ok (G k) a {t. stored_type (G k) t = Some T} best" by blast
  from ok consider
    (none) "best = (None, None)" "\<forall>t. stored_type (G k) t = Some T \<longrightarrow> \<not> reachable (G k) a t"
    | (some) t p where "best = (Some t, Some p)" "stored_type (G k) t = Some T"
        "walk_from_to (G k) a t p"
        "\<forall>t' q. stored_type (G k) t' = Some T \<and> walk_from_to (G k) a t' q \<longrightarrow> length p \<le> length q"
    unfolding best_ok_def by blast
  then show ?thesis
  proof cases
    case none
    have "find_nearest_node_of_type k A T = Inr None"
      using Some nl none(1) by (simp add: find_nearest_node_of_type_def Let_def)
    moreover have "\<forall>a t. label_to_id k A = Some a \<and> stored_type (G k) t = Some T
                     \<longrightarrow> \<not> reachable (G k) a t"
      using Some none(2) by simp
    ultimately show ?thesis by simp
  next
    case some
    have ne: "candidates (G k) T \<noteq> []" using cs some(2) by auto
    from loaded_labels_closed [OF assms Some some(3)] obtain L where
      sub: "set p \<subseteq> dom (id_to_label k)" and L: "id_to_label k t = Some L" by auto
    let ?ps = "map (\<lambda>n. the (id_to_label k n)) p"
    from sub have gi: "getitems (id_to_label k) p = Inr ?ps" by (rule getitems_labels)
    have res: "find_nearest_node_of_type k A T = Inr (Some (L, ?ps))"
      using Some nl some(1) ne L gi by (simp add: find_nearest_node_of_type_def getitem_def Let_def)
    have r: "reachable (G k) a t" using some(3) unfolding reachable_def by blast
    have left: "\<not> (label_to_id k A = None \<or>
            (\<forall>t. stored_type (G k) t \<noteq> Some T) \<or>
            (\<forall>a t. label_to_id k A = Some a \<and> stored_type (G k) t = Some T
                     \<longrightarrow> \<not> reachable (G k) a t))"
      using Some some(2) r by auto
    have right: "\<exists>a t p L ps. label_to_id k A = Some a \<and>
               find_nearest_node_of_type k A T = Inr (Some (L, ps)) \<and>
               stored_type (G k) t = Some T \<and> id_to_label k t = Some L \<and>
               walk_from_to (G k) a t p \<and> getitems (id_to_label k) p = Inr ps \<and>
               length ps = length p \<and>
               (\<forall>t' q. stored_type (G k) t' = Some T \<and> walk_from_to (G k) a t' q
                         \<longrightarrow> length ps \<le> length q)"
    proof (intro exI conjI)
      show "label_to_id k A = Some a" by (rule Some)
      show "find_nearest_node_of_type k A T = Inr (Some (L, ?ps))" by (rule res)
      show "stored_type (G k) t = Some T" by (rule some(2))
      show "id_to_label k t = Some L" by (rule L)
      show "walk_from_to (G k) a t p" by (rule some(3))
      show "getitems (id_to_label k) p = Inr ?ps" by (rule gi)
      show "length ?ps = length p" by simp
      show "\<forall>t' q. stored_type (G k) t' = Some T \<and> walk_from_to (G k) a t' q
                         \<longrightarrow> length ?ps \<le> length q"
        using some(4) by simp
    qed
    from res have "find_nearest_node_of_type k A T \<noteq> Inr None" by simp
    with left right show ?thesis by simp
  qed
qed

theorem nearest_of_type_witness:
  "load_graph example_desc = Inr (loaded example_desc) \<and> edges_closed example_desc \<and>
   find_nearest_node_of_type (loaded example_desc) ''Intersection 4'' ''hospital''
     = Inr (Some (''Central Hospital'', [''Intersection 4'', ''Central Hospital''])) \<and>
   (\<exists>a t p. label_to_id (loaded example_desc) ''Intersection 4'' = Some a \<and>
      stored_type (G (loaded example_desc)) t = Some ''hospital'' \<and>
      id_to_label (loaded example_desc) t = Some ''Central Hospital'' \<and>
      walk_from_to (G (loaded example_desc)) a t p \<and> length p = 2)"
proof -
  have ld: "load_graph example_desc = Inr (loaded example_desc)"
    by (simp add: kg_eval example_desc_def)
  have ec: "edges_closed example_desc"
    by (simp add: example_desc_def edges_closed_def node_ids_def ids_of_def endpoints_of_def)
  have res: "find_nearest_node_of_type (loaded example_desc) ''Intersection 4'' ''hospital''
     = Inr (Some (''Central Hospital'', [''Intersection 4'', ''Central Hospital'']))"
    by (simp add: kg_eval example_desc_def)
  then have "find_nearest_node_of_type (loaded example_desc) ''Intersection 4'' ''hospital'' \<noteq> Inr None"
    by simp
  with nearest_of_type [OF ld ec, of "''Intersection 4''" "''hospital''"]
  obtain a t p L ps where "label_to_id (loaded example_desc) ''Intersection 4'' = Some a"
    "find_nearest_node_of_type (loaded example_desc) ''Intersection 4'' ''hospital'' = Inr (Some (L, ps))"
    "stored_type (G (loaded example_desc)) t = Some ''hospital''"
    "id_to_label (loaded example_desc) t = Some L"
    "walk_from_to (G (loaded example_desc)) a t p" "length ps = length p"
    by blast
  with res have "label_to_id (loaded example_desc) ''Intersection 4'' = Some a \<and>
      stored_type (G (loaded example_desc)) t = Some ''hospital'' \<and>
      id_to_label (loaded example_desc) t = Some ''Central Hospital'' \<and>
      walk_from_to (G (loaded example_desc)) a t p \<and> length p = 2"
    by simp
  then have "\<exists>a t p. label_to_id (loaded example_desc) ''Intersection 4'' = Some a \<and>
      stored_type (G (loaded example_desc)) t = Some ''hospital'' \<and>
      id_to_label (loaded example_desc) t = Some ''Central Hospital'' \<and>
      walk_from_to (G (loaded example_desc)) a t p \<and> length p = 2"
    by blast
  with ld ec res show ?thesis by simp
qed


end
